theory Spec2Isabelle
  imports Complex_Main "HOL-Library.Multiset"
begin

section \<open>Data model of \<open>msa/mdp/mdp.go\<close>\<close>

text \<open>
  A nucleotide base; \<open>X\<close> is the gap symbol.  Go's \<open>int\<close> is modelled by the unbounded
  \<open>int\<close>: every score is bounded in absolute value by six times the number of pairs of
  sequences times the sum of the sequence lengths, and both grids, of
  \<open>\<Prod>(length + 1)\<close> cells, have to fit in memory, so no 64-bit operation of the program
  wraps around.
\<close>

datatype Base = A | C | G | T | X

record Sequence =
  bases :: "Base list"

text \<open>The scoring constants, doubled as in the source.\<close>

definition match :: int where "match = 6"
definition mismatch :: int where "mismatch = - 4"
definition gap :: int where "gap = - 3"

text \<open>
  A run of the program either returns a value or stops: \<open>Panic\<close> is a Go run-time panic
  (an index or a slice bound out of range), \<open>DepthExceeded\<close> says that the recursion went
  deeper than the depth the model was given (see \<open>optimalScore\<close>).
\<close>

datatype error = Panic | DepthExceeded

text \<open>Go's \<open>xs[i]\<close>, for a loop index and for a computed \<open>int\<close>.\<close>

definition index :: "'a list \<Rightarrow> nat \<Rightarrow> error + 'a" where
  "index xs i = (if i < length xs then Inr (xs ! i) else Inl Panic)"

definition index_int :: "'a list \<Rightarrow> int \<Rightarrow> error + 'a" where
  "index_int xs j = (if 0 \<le> j \<and> j < int (length xs) then Inr (xs ! nat j) else Inl Panic)"

text \<open>A \<open>for ... range\<close> loop whose body may panic: the state is threaded through.\<close>

fun foldE :: "('a \<Rightarrow> 's \<Rightarrow> error + 's) \<Rightarrow> 'a list \<Rightarrow> 's \<Rightarrow> error + 's" where
  "foldE f [] s = Inr s"
| "foldE f (x # xs) s = (case f x s of Inl e \<Rightarrow> Inl e | Inr s' \<Rightarrow> foldE f xs s')"

subsection \<open>The dense grid\<close>

text \<open>
  Modelled from the spec: the type \<open>nd.Array\<close> of the imported package
  \<open>github.com/bsjcho/nd\<close>, with \<open>NewArray\<close>, \<open>At\<close> and \<open>Set\<close>.  The spec describes it as
  a dense container addressed by a vector of non-negative integer coordinates,
  allocated from a vector of per-dimension extents and supporting get and set.  A fresh
  grid holds Go's zero value in every cell; a coordinate of the wrong dimension or
  outside the extents panics.  The solver stays within the extents
  (\<open>coordinate_in_bounds\<close> below), so what an access outside them does plays no part in
  the results.
\<close>

record ndArray =
  extents :: "int list"
  cells :: "int list \<Rightarrow> int"

definition in_bounds :: "int list \<Rightarrow> int list \<Rightarrow> bool" where
  "in_bounds exts idxs = list_all2 (\<lambda>i n. 0 \<le> i \<and> i < n) idxs exts"

definition nd_NewArray :: "int list \<Rightarrow> ndArray" where
  "nd_NewArray szs = \<lparr>extents = szs, cells = (\<lambda>_. 0)\<rparr>"

definition nd_At :: "ndArray \<Rightarrow> int list \<Rightarrow> error + int" where
  "nd_At a idxs = (if in_bounds (extents a) idxs then Inr (cells a idxs) else Inl Panic)"

definition nd_Set :: "ndArray \<Rightarrow> int \<Rightarrow> int list \<Rightarrow> error + ndArray" where
  "nd_Set a v idxs =
     (if in_bounds (extents a) idxs then Inr (a\<lparr>cells := (cells a)(idxs := v)\<rparr>) else Inl Panic)"

record multiDP =
  seqs :: "Sequence list"
  table :: ndArray
  cached :: ndArray
  subsetMasks :: "int list list"

section \<open>Helper functions\<close>

definition NewSequence :: Sequence where
  "NewSequence = \<lparr>bases = []\<rparr>"

definition sizes :: "Sequence list \<Rightarrow> int list" where
  "sizes s = map (\<lambda>seq. int (length (bases seq)) + 1) s"

definition maxIndices :: "multiDP \<Rightarrow> int list" where
  "maxIndices m = map (\<lambda>sz. sz - 1) (sizes (seqs m))"

definition decrementedIndices :: "int list \<Rightarrow> int list" where
  "decrementedIndices idxs = map (\<lambda>i. i - 1) idxs"

definition cpy :: "int list \<Rightarrow> int list" where
  "cpy a = a"

text \<open>
  \<open>max\<close> of the source: the largest argument, starting from \<open>math.MinInt64\<close>.
\<close>

definition max_ints :: "int list \<Rightarrow> int" where
  "max_ints ints = foldl (\<lambda>mx x. if x > mx then x else mx) (- (2 ^ 63)) ints"

text \<open>
  \<open>arraysMatch\<close> counts the positions of \<open>s1\<close> at which \<open>s2\<close> holds the same value;
  \<open>s2[i]\<close> panics when \<open>s2\<close> is shorter.
\<close>

definition arraysMatch :: "int list \<Rightarrow> int list \<Rightarrow> error + bool" where
  "arraysMatch s1 s2 =
     (case foldE (\<lambda>(i, v) cnt.
                    case index s2 i of Inl e \<Rightarrow> Inl e
                    | Inr w \<Rightarrow> Inr (if w = v then cnt + 1 else cnt))
                 (enumerate 0 s1) (0::int) of
        Inl e \<Rightarrow> Inl e
      | Inr cnt \<Rightarrow> Inr (cnt = int (length s1)))"

text \<open>
  \<open>subsetHelper idxs i\<close> reads \<open>idxs[i]\<close> before it recurses on \<open>i - 1\<close>, so an index
  below \<open>-1\<close> or beyond the slice panics at once.
\<close>

function subsetHelper :: "int list \<Rightarrow> int \<Rightarrow> error + int list list" where
  "subsetHelper idxs i =
     (if i = - 1 then Inr [[]]
      else case index_int idxs i of Inl e \<Rightarrow> Inl e
      | Inr x \<Rightarrow>
          (case subsetHelper idxs (i - 1) of Inl e \<Rightarrow> Inl e
           | Inr subs \<Rightarrow>
               Inr (concat (map (\<lambda>subset. [cpy subset @ [x], cpy subset @ [x - 1]]) subs))))"
  by pat_completeness auto
termination
  by (relation "measure (\<lambda>(idxs, i). nat (i + 1))") (auto simp: index_int_def split: if_splits)

declare subsetHelper.simps [simp del]

definition purgeAllGapCase :: "int list \<Rightarrow> int list list \<Rightarrow> error + int list list" where
  "purgeAllGapCase idxs subsets =
     (let si = decrementedIndices idxs in
      foldE (\<lambda>subset ss.
               case arraysMatch subset si of Inl e \<Rightarrow> Inl e
               | Inr same \<Rightarrow> Inr (if \<not> same then ss @ [subset] else ss))
            subsets [])"

definition findSubsets :: "int list \<Rightarrow> error + int list list" where
  "findSubsets idxs =
     (case subsetHelper idxs (int (length idxs) - 1) of Inl e \<Rightarrow> Inl e
      | Inr subsets \<Rightarrow> purgeAllGapCase idxs subsets)"

definition generateSubsetMasks :: "int \<Rightarrow> error + int list list" where
  "generateSubsetMasks numSeqCompared = findSubsets (replicate (nat numSeqCompared) 1)"

definition newMultiDP :: "Sequence list \<Rightarrow> error + multiDP" where
  "newMultiDP s =
     (case generateSubsetMasks (int (length s)) of Inl e \<Rightarrow> Inl e
      | Inr masks \<Rightarrow>
          Inr \<lparr>seqs = s, table = nd_NewArray (sizes s), cached = nd_NewArray (sizes s),
               subsetMasks = masks\<rparr>)"

section \<open>Scoring\<close>

definition pairScore :: "Base \<Rightarrow> Base \<Rightarrow> int" where
  "pairScore b1 b2 =
     (if b1 = X \<and> b2 = X then 0
      else if (b1 = X \<and> b2 \<noteq> X) \<or> (b2 = X \<and> b1 \<noteq> X) then gap
      else if b1 \<noteq> b2 then mismatch
      else match)"

text \<open>
  \<open>score\<close> slices \<open>bases[:len(bases)-1]\<close>, which panics on an empty column, and adds
  \<open>pairScore\<close> of every position with every later one.
\<close>

definition score :: "Base list \<Rightarrow> error + int" where
  "score bs =
     (if bs = [] then Inl Panic
      else Inr (foldl (\<lambda>sm (i, bi). foldl (\<lambda>sm bj. sm + pairScore bi bj) sm (drop (i + 1) bs))
                  0 (enumerate 0 (take (length bs - 1) bs))))"

section \<open>The memoized solver\<close>

text \<open>
  \<open>maskedIdxs\<close> subtracts the mask from the indices position by position and stops with
  \<open>ok = false\<close> at the first negative difference; \<open>mask[i]\<close> panics on a shorter mask.
\<close>

fun maskedIdxs_loop ::
  "(nat \<times> int) list \<Rightarrow> int list \<Rightarrow> int list \<Rightarrow> error + (int list \<times> bool)" where
  "maskedIdxs_loop [] msk mIdxs = Inr (mIdxs, True)"
| "maskedIdxs_loop ((i, idx) # rest) msk mIdxs =
     (case index msk i of Inl e \<Rightarrow> Inl e
      | Inr b \<Rightarrow>
          (let x = idx - b in
           if x < 0 then Inr (mIdxs, False)
           else maskedIdxs_loop rest msk (mIdxs @ [x])))"

definition maskedIdxs :: "int list \<Rightarrow> int list \<Rightarrow> error + (int list \<times> bool)" where
  "maskedIdxs idxs msk = maskedIdxs_loop (enumerate 0 idxs) msk []"

text \<open>
  \<open>maskedBases\<close> takes, for a mask bit 1, the base at the 1-based position \<open>idx\<close> of the
  sequence, and a gap otherwise.
\<close>

definition maskedBases :: "multiDP \<Rightarrow> int list \<Rightarrow> int list \<Rightarrow> error + Base list" where
  "maskedBases m idxs msk =
     foldE (\<lambda>(i, idx) bs.
              case index msk i of Inl e \<Rightarrow> Inl e
              | Inr mbit \<Rightarrow>
                  if mbit = 1 then
                    (case index (seqs m) i of Inl e \<Rightarrow> Inl e
                     | Inr sq \<Rightarrow>
                         (case index_int (bases sq) (idx - 1) of Inl e \<Rightarrow> Inl e
                          | Inr b \<Rightarrow> Inr (bs @ [b])))
                  else Inr (bs @ [X]))
           (enumerate 0 idxs) []"

text \<open>
  One pass of the loop over the masks in \<open>optimalScore\<close>, from the running \<open>best\<close> and
  the solver's state.  \<open>rec\<close> is the recursive call.
\<close>

definition mask_step ::
  "(multiDP \<Rightarrow> int list \<Rightarrow> error + (int \<times> multiDP)) \<Rightarrow> int list \<Rightarrow> int list \<Rightarrow>
     int \<times> multiDP \<Rightarrow> error + (int \<times> multiDP)" where
  "mask_step rec idxs msk st =
     (case st of (best, m) \<Rightarrow>
        (case maskedIdxs idxs msk of Inl e \<Rightarrow> Inl e
         | Inr (mIdxs, ok) \<Rightarrow>
             if \<not> ok then Inr (best, m)
             else
               (case rec m mIdxs of Inl e \<Rightarrow> Inl e
                | Inr (optScore, m') \<Rightarrow>
                    (case maskedBases m' idxs msk of Inl e \<Rightarrow> Inl e
                     | Inr bs \<Rightarrow>
                         (case score bs of Inl e \<Rightarrow> Inl e
                          | Inr sc \<Rightarrow> Inr (max_ints [best, optScore + sc], m'))))))"

text \<open>
  The body of \<open>optimalScore\<close>: the base case, the cache lookup, the loop over the masks
  from \<open>best = 0\<close> (the zero value of the named result), and the two stores.
\<close>

definition optimalScore_body ::
  "(multiDP \<Rightarrow> int list \<Rightarrow> error + (int \<times> multiDP)) \<Rightarrow> multiDP \<Rightarrow> int list \<Rightarrow>
     error + (int \<times> multiDP)" where
  "optimalScore_body rec m idxs =
     (if \<exists>i \<in> set idxs. i \<le> 0 then Inr (0, m)
      else
        (case nd_At (cached m) idxs of Inl e \<Rightarrow> Inl e
         | Inr flag \<Rightarrow>
             if flag = 1 then
               (case nd_At (table m) idxs of Inl e \<Rightarrow> Inl e | Inr v \<Rightarrow> Inr (v, m))
             else
               (case foldE (mask_step rec idxs) (subsetMasks m) (0, m) of Inl e \<Rightarrow> Inl e
                | Inr (best, m1) \<Rightarrow>
                    (case nd_Set (table m1) best idxs of Inl e \<Rightarrow> Inl e
                     | Inr t \<Rightarrow>
                         (case nd_Set (cached m1) 1 idxs of Inl e \<Rightarrow> Inl e
                          | Inr c \<Rightarrow> Inr (best, m1\<lparr>table := t, cached := c\<rparr>))))))"

text \<open>
  \<open>optimalScore d\<close> is the solver allowed \<open>d\<close> nested recursive calls below the call
  itself: a deeper call ends the run with \<open>DepthExceeded\<close>.  The source has no such
  bound; that a depth suffices is what its termination means here.
\<close>

primrec optimalScore :: "nat \<Rightarrow> multiDP \<Rightarrow> int list \<Rightarrow> error + (int \<times> multiDP)" where
  "optimalScore 0 = optimalScore_body (\<lambda>m idxs. Inl DepthExceeded)"
| "optimalScore (Suc d) = optimalScore_body (optimalScore d)"

text \<open>
  The final division: \<open>float64(optScore) / 2\<close> is modelled by the exact quotient, which
  a double represents exactly for every integer below \<open>2 ^ 53\<close> in absolute value.
\<close>

definition solve :: "nat \<Rightarrow> multiDP \<Rightarrow> error + real" where
  "solve d m =
     (case optimalScore d m (maxIndices m) of Inl e \<Rightarrow> Inl e
      | Inr (optScore, m') \<Rightarrow> Inr (real_of_int optScore / 2))"

text \<open>
  A Go string is given by the runes that \<open>range\<close> yields on it, each a code point;
  \<open>convertStringBase\<close> receives the one-rune string of each.  \<open>ascii\<close> gives the runes
  of a string of ASCII characters.
\<close>

type_synonym rune = int
type_synonym gostring = "rune list"

definition ascii :: "string \<Rightarrow> gostring" where
  "ascii s = map (\<lambda>c. int (of_char c)) s"

definition convertStringBase :: "gostring \<Rightarrow> Base" where
  "convertStringBase b =
     (if b = ascii ''A'' then A
      else if b = ascii ''C'' then C
      else if b = ascii ''G'' then G
      else if b = ascii ''T'' then T
      else X)"

definition convertStringSequence :: "gostring \<Rightarrow> Sequence" where
  "convertStringSequence sq =
     foldl (\<lambda>s b. s\<lparr>bases := bases s @ [convertStringBase [b]]\<rparr>) NewSequence sq"

definition Solve :: "nat \<Rightarrow> gostring list \<Rightarrow> error + real" where
  "Solve d seqStrings =
     (case newMultiDP (foldl (\<lambda>sqs seqStr. sqs @ [convertStringSequence seqStr]) [] seqStrings) of
        Inl e \<Rightarrow> Inl e
      | Inr mdp \<Rightarrow> solve d mdp)"

section \<open>The recurrence of the specification\<close>

text \<open>
  The definitions of this section follow the words of the specification; the solver
  above is compared with them.  \<open>columnScore\<close> is the sum of \<open>pairScore\<close> over every
  unordered pair of positions of a column.
\<close>

fun columnScore :: "Base list \<Rightarrow> int" where
  "columnScore [] = 0"
| "columnScore (b # bs) = sum_list (map (pairScore b) bs) + columnScore bs"

text \<open>The Column-Mask Set: the non-zero vectors of \<open>{0,1}^k\<close>, in some order.\<close>

definition maskSet :: "nat \<Rightarrow> int list list" where
  "maskSet k = filter (\<lambda>m. m \<noteq> replicate k 0) (List.n_lists k [1, 0])"

text \<open>The predecessor \<open>C - m\<close> of a coordinate, componentwise.\<close>

definition predecessor :: "int list \<Rightarrow> int list \<Rightarrow> int list" where
  "predecessor idxs msk = map2 (-) idxs msk"

text \<open>
  The column selected by a mask at a coordinate: the symbol at the 1-based position
  \<open>C_i\<close> of sequence \<open>i\<close> where the bit is 1, a gap where it is 0.
\<close>

definition column :: "Sequence list \<Rightarrow> int list \<Rightarrow> int list \<Rightarrow> Base list" where
  "column sqs idxs msk =
     map (\<lambda>(sq, idx, b). if b = 1 then bases sq ! nat (idx - 1) else X) (zip sqs (zip idxs msk))"

text \<open>
  A coordinate has one component per sequence, between 0 and the length of that
  sequence.
\<close>

definition coordinate :: "Sequence list \<Rightarrow> int list \<Rightarrow> bool" where
  "coordinate sqs idxs = list_all2 (\<lambda>i sq. 0 \<le> i \<and> i \<le> int (length (bases sq))) idxs sqs"

lemma sum_list_map2_minus:
  "length xs = length ys \<Longrightarrow> sum_list (map2 (-) xs ys) = sum_list xs - sum_list (ys :: int list)"
  by (induction xs ys rule: list_induct2) auto

lemma sum_list_bits_nonneg: "set ys \<subseteq> {0, 1} \<Longrightarrow> 0 \<le> sum_list (ys :: int list)"
  by (induction ys) auto

lemma sum_list_bits_pos:
  "set ys \<subseteq> {0, 1} \<Longrightarrow> ys \<noteq> replicate (length ys) 0 \<Longrightarrow> 0 < sum_list (ys :: int list)"
proof (induction ys)
  case Nil
  then show ?case by simp
next
  case (Cons y ys)
  from Cons.prems(1) have y: "y = 0 \<or> y = 1" and ys: "set ys \<subseteq> {0, 1}" by auto
  show ?case
  proof (cases "y = 0")
    case True
    with Cons.prems(2) have "ys \<noteq> replicate (length ys) 0" by simp
    with Cons.IH ys True show ?thesis by simp
  next
    case False
    with y sum_list_bits_nonneg[OF ys] show ?thesis by simp
  qed
qed

lemma predecessor_sum:
  assumes "length msk = length idxs" and "set msk \<subseteq> {0, 1}" and "msk \<noteq> replicate (length idxs) 0"
  shows "sum_list (predecessor idxs msk) < sum_list idxs"
  using sum_list_map2_minus[of idxs msk] sum_list_bits_pos[of msk] assms
  by (simp add: predecessor_def)

lemma sum_list_pos_empty:
  "\<forall>i \<in> set idxs. 0 < i \<Longrightarrow> sum_list idxs \<le> 0 \<Longrightarrow> idxs = ([] :: int list)"
proof (cases idxs)
  case Nil
  then show ?thesis by simp
next
  case (Cons x xs)
  assume pos: "\<forall>i \<in> set idxs. 0 < i" and le: "sum_list idxs \<le> 0"
  have "0 \<le> sum_list xs" using pos Cons by (intro sum_list_nonneg) force
  moreover have "0 < x" using pos Cons by simp
  ultimately show ?thesis using le Cons by simp
qed

lemma set_maskSet: "set (maskSet k) = {s. length s = k \<and> set s \<subseteq> {0, 1} \<and> s \<noteq> replicate k 0}"
  by (auto simp: maskSet_def set_n_lists)

text \<open>
  The recurrence of the Memoized Solver: 0 at a coordinate with a component 0, and
  otherwise the largest candidate, over the masks whose predecessor has no negative
  component, of the score of the predecessor plus the score of the column.  \<open>extra\<close>
  lists candidates taken besides those of the masks: none in the recurrence as the
  specification states it, the initial \<open>best = 0\<close> in the solver.  The recurrence is
  about coordinates: on a vector with another number of components than there are
  sequences it is 0.
\<close>

function recScore :: "int list \<Rightarrow> Sequence list \<Rightarrow> int list \<Rightarrow> int" where
  "recScore extra sqs idxs =
     (if length idxs \<noteq> length sqs \<or> (\<exists>i \<in> set idxs. i \<le> 0) then 0
      else Max (set (extra @
             map (\<lambda>msk. recScore extra sqs (predecessor idxs msk) + columnScore (column sqs idxs msk))
               (filter (\<lambda>msk. \<forall>x \<in> set (predecessor idxs msk). 0 \<le> x) (maskSet (length sqs))))))"
  by pat_completeness auto
termination
proof (relation "measure (\<lambda>(extra, sqs, idxs). nat (sum_list idxs))", goal_cases)
  case 1
  show ?case by simp
next
  case (2 extra sqs idxs msk)
  from 2 have len: "length idxs = length sqs" and pos: "\<forall>i \<in> set idxs. 0 < i"
    by (auto simp: not_le)
  from 2 have m: "length msk = length idxs" "set msk \<subseteq> {0, 1}" "msk \<noteq> replicate (length idxs) 0"
    by (auto simp: set_maskSet)
  have "idxs \<noteq> []" using m by auto
  then have "0 < sum_list idxs" using sum_list_pos_empty[OF pos] by fastforce
  moreover have "sum_list (predecessor idxs msk) < sum_list idxs"
    using m by (rule predecessor_sum)
  ultimately show ?case by simp
qed

declare recScore.simps [simp del]

section \<open>The state of a run\<close>

text \<open>
  The states a run of \<open>Solve\<close> on the sequences \<open>sqs\<close> goes through: the fields set by
  \<open>newMultiDP\<close> are unchanged, and every coordinate whose flag is set stores the value
  of the recurrence.
\<close>

definition solver_state :: "Sequence list \<Rightarrow> multiDP \<Rightarrow> bool" where
  "solver_state sqs m \<longleftrightarrow>
     seqs m = sqs \<and>
     generateSubsetMasks (int (length sqs)) = Inr (subsetMasks m) \<and>
     extents (table m) = sizes sqs \<and>
     extents (cached m) = sizes sqs \<and>
     (\<forall>idxs. cells (cached m) idxs = 1 \<longrightarrow> cells (table m) idxs = recScore [0] sqs idxs)"

text \<open>\<open>keeps m m'\<close>: every flag set in \<open>m\<close> is set in \<open>m'\<close>, with the same stored score.\<close>

definition keeps :: "multiDP \<Rightarrow> multiDP \<Rightarrow> bool" where
  "keeps m m' \<longleftrightarrow>
     (\<forall>idxs. cells (cached m) idxs = 1 \<longrightarrow>
        cells (cached m') idxs = 1 \<and> cells (table m') idxs = cells (table m) idxs)"

text \<open>
  A result of the solver from state \<open>m\<close> agrees with the value \<open>v\<close>: unless the depth
  ran out, it is \<open>v\<close>, in a state of the run that keeps what \<open>m\<close> had cached.
\<close>

definition refines :: "Sequence list \<Rightarrow> multiDP \<Rightarrow> int \<Rightarrow> error + (int \<times> multiDP) \<Rightarrow> bool" where
  "refines sqs m v r \<longleftrightarrow>
     r = Inl DepthExceeded \<or> (\<exists>m'. r = Inr (v, m') \<and> solver_state sqs m' \<and> keeps m m')"

text \<open>The candidate of a mask at a coordinate, in the recurrence with the candidate 0.\<close>

definition cand :: "Sequence list \<Rightarrow> int list \<Rightarrow> int list \<Rightarrow> int" where
  "cand sqs idxs msk =
     recScore [0] sqs (predecessor idxs msk) + columnScore (column sqs idxs msk)"

text \<open>What \<open>subsetHelper\<close> and \<open>generateSubsetMasks\<close> compute, in their order.\<close>

fun bitlists :: "nat \<Rightarrow> int list list" where
  "bitlists 0 = [[]]"
| "bitlists (Suc n) = concat (map (\<lambda>s. [s @ [1], s @ [0]]) (bitlists n))"

definition codeMasks :: "nat \<Rightarrow> int list list" where
  "codeMasks k = filter (\<lambda>s. s \<noteq> replicate k 0) (bitlists k)"

text \<open>The state \<open>newMultiDP\<close> builds.\<close>

definition fresh :: "Sequence list \<Rightarrow> multiDP" where
  "fresh s = \<lparr>seqs = s, table = nd_NewArray (sizes s), cached = nd_NewArray (sizes s),
              subsetMasks = codeMasks (length s)\<rparr>"

text \<open>The pairs that the loops of \<open>score\<close> still have to add.\<close>

fun pairs_from :: "Base list \<Rightarrow> Base list \<Rightarrow> int" where
  "pairs_from [] ys = 0"
| "pairs_from (x # xs) ys = sum_list (map (pairScore x) (xs @ ys)) + pairs_from xs ys"

text \<open>No stored score is negative; a result that keeps it so.\<close>

definition nonneg_table :: "multiDP \<Rightarrow> bool" where
  "nonneg_table m \<longleftrightarrow> (\<forall>idxs. 0 \<le> cells (table m) idxs)"

definition nonneg_result :: "multiDP \<Rightarrow> error + (int \<times> multiDP) \<Rightarrow> bool" where
  "nonneg_result m r \<longleftrightarrow>
     (case r of Inl e \<Rightarrow> True | Inr (v, m') \<Rightarrow> nonneg_table m \<longrightarrow> 0 \<le> v \<and> nonneg_table m')"

text \<open>
  An example: the sequences A and C, and the state of the solver once it has computed
  their terminal coordinate \<open>(1, 1)\<close>.
\<close>

definition seqs_A_C :: "Sequence list" where
  "seqs_A_C = [\<lparr>bases = [A]\<rparr>, \<lparr>bases = [C]\<rparr>]"

definition state_A_C :: multiDP where
  "state_A_C =
     \<lparr>seqs = seqs_A_C,
      table = \<lparr>extents = [2, 2], cells = (\<lambda>_. 0)([1, 1] := 0)\<rparr>,
      cached = \<lparr>extents = [2, 2], cells = (\<lambda>_. 0)([1, 1] := 1)\<rparr>,
      subsetMasks = [[1, 1], [1, 0], [0, 1]]\<rparr>"

section \<open>Properties of the helper functions\<close>

lemma foldl_pairScore: "foldl (\<lambda>sm bj. sm + pairScore bi bj) acc ys = acc + sum_list (map (pairScore bi) ys)"
  by (induction ys arbitrary: acc) auto

lemma score_loop:
  "foldl (\<lambda>sm (i, bi). foldl (\<lambda>sm bj. sm + pairScore bi bj) sm (drop (i + 1) (p @ xs @ ys)))
      acc (enumerate (length p) xs) = acc + pairs_from xs ys"
proof (induction xs arbitrary: p acc)
  case Nil
  then show ?case by simp
next
  case (Cons x xs)
  have "foldl (\<lambda>sm (i, bi). foldl (\<lambda>sm bj. sm + pairScore bi bj) sm (drop (i + 1) ((p @ [x]) @ xs @ ys)))
      (acc + sum_list (map (pairScore x) (xs @ ys))) (enumerate (length (p @ [x])) xs)
      = acc + sum_list (map (pairScore x) (xs @ ys)) + pairs_from xs ys"
    by (rule Cons.IH)
  then show ?case by (simp add: foldl_pairScore)
qed

lemma pairs_from_snoc: "pairs_from (xs @ [y]) [] = pairs_from xs [y]"
  by (induction xs) auto

lemma pairs_from_Nil: "pairs_from xs [] = columnScore xs"
  by (induction xs) auto

lemma score_eq: "bs \<noteq> [] \<Longrightarrow> score bs = Inr (columnScore bs)"
proof -
  assume ne: "bs \<noteq> []"
  then have bs: "bs = butlast bs @ [last bs]" by simp
  have tk: "take (length bs - Suc 0) bs = butlast bs" by (simp add: butlast_conv_take)
  have "foldl (\<lambda>sm (i, bi). foldl (\<lambda>sm bj. sm + pairScore bi bj) sm (drop (i + 1) ([] @ butlast bs @ [last bs])))
      0 (enumerate (length ([]::Base list)) (butlast bs)) = 0 + pairs_from (butlast bs) [last bs]"
    by (rule score_loop)
  then have "foldl (\<lambda>sm (i, bi). foldl (\<lambda>sm bj. sm + pairScore bi bj) sm (drop (i + 1) bs))
      0 (enumerate 0 (take (length bs - 1) bs)) = pairs_from (butlast bs) [last bs]"
    using ne by (simp add: tk)
  moreover have "pairs_from (butlast bs) [last bs] = columnScore bs"
    using pairs_from_snoc[of "butlast bs" "last bs"] pairs_from_Nil[of bs] ne by simp
  ultimately show ?thesis using ne by (simp add: score_def)
qed

lemma max_ints_pair: "- (2 ^ 63) < a \<Longrightarrow> max_ints [a, b] = max a b"
  by (auto simp: max_ints_def)

lemma pairScore_sym: "pairScore a b = pairScore b a"
  by (auto simp: pairScore_def)

lemma arraysMatch_loop:
  "length s1 \<le> length s2 - k \<Longrightarrow> k \<le> length s2 \<Longrightarrow>
   foldE (\<lambda>(i, v) cnt. case index s2 i of Inl e \<Rightarrow> Inl e
                    | Inr w \<Rightarrow> Inr (if w = v then cnt + 1 else cnt))
      (enumerate k s1) c = Inr (c + int (length (filter (\<lambda>(a, b). a = b) (zip s1 (drop k s2)))))"
proof (induction s1 arbitrary: k c)
  case Nil
  then show ?case by simp
next
  case (Cons v s1)
  from Cons.prems have k: "k < length s2" by auto
  then have dr: "drop k s2 = s2 ! k # drop (Suc k) s2" by (simp add: Cons_nth_drop_Suc)
  have "length s1 \<le> length s2 - Suc k" "Suc k \<le> length s2" using Cons.prems by auto
  note IH = Cons.IH[OF this]
  have ix: "index s2 k = Inr (s2 ! k)" using k by (simp add: index_def)
  show ?case by (simp add: ix dr IH)
qed

lemma filter_eq_length: "length xs = length ys \<Longrightarrow>
  (length (filter (\<lambda>(a, b). a = b) (zip xs ys)) = length xs) = (xs = ys)"
proof (induction xs ys rule: list_induct2)
  case Nil then show ?case by simp
next
  case (Cons x xs y ys)
  have le: "length (filter (\<lambda>(a, b). a = b) (zip xs ys)) \<le> length xs"
    using length_filter_le[of "\<lambda>(a, b). a = b" "zip xs ys"] Cons.hyps by simp
  show ?case using Cons le by auto
qed

lemma arraysMatch_eq: "length s1 = length s2 \<Longrightarrow> arraysMatch s1 s2 = Inr (s1 = s2)"
  using arraysMatch_loop[of s1 s2 0 0] filter_eq_length[of s1 s2]
  by (simp add: arraysMatch_def)

lemma purge_loop:
  "(\<And>s. s \<in> set subsets \<Longrightarrow> length s = length si) \<Longrightarrow>
   foldE (\<lambda>subset ss. case arraysMatch subset si of Inl e \<Rightarrow> Inl e
               | Inr same \<Rightarrow> Inr (if \<not> same then ss @ [subset] else ss)) subsets acc
   = Inr (acc @ filter (\<lambda>s. s \<noteq> si) subsets)"
  by (induction subsets arbitrary: acc) (auto simp: arraysMatch_eq)

lemma purgeAllGapCase_eq:
  "(\<And>s. s \<in> set subsets \<Longrightarrow> length s = length idxs) \<Longrightarrow>
   purgeAllGapCase idxs subsets = Inr (filter (\<lambda>s. s \<noteq> decrementedIndices idxs) subsets)"
  using purge_loop[of subsets "decrementedIndices idxs" "[]"]
  by (simp add: purgeAllGapCase_def decrementedIndices_def)

lemma subsetHelper_replicate:
  "n \<le> k \<Longrightarrow> subsetHelper (replicate k 1) (int n - 1) = Inr (bitlists n)"
proof (induction n)
  case 0
  then show ?case by (simp add: subsetHelper.simps)
next
  case (Suc n)
  then have IH: "subsetHelper (replicate k 1) (int n - 1) = Inr (bitlists n)" by simp
  have ix: "index_int (replicate k (1::int)) (int n) = Inr 1"
    using Suc.prems by (simp add: index_int_def)
  show ?case
    using IH ix by (subst subsetHelper.simps) (simp add: cpy_def)
qed

lemma length_bitlists_elem: "s \<in> set (bitlists n) \<Longrightarrow> length s = n"
  by (induction n arbitrary: s) auto

lemma set_bitlists: "set (bitlists n) = {s. length s = n \<and> set s \<subseteq> {0, 1}}"
proof (induction n)
  case 0
  then show ?case by auto
next
  case (Suc n)
  show ?case
  proof (intro set_eqI iffI)
    fix s assume "s \<in> set (bitlists (Suc n))"
    then show "s \<in> {s. length s = Suc n \<and> set s \<subseteq> {0, 1}}"
      using Suc.IH by auto
  next
    fix s :: "int list" assume "s \<in> {s. length s = Suc n \<and> set s \<subseteq> {0, 1}}"
    then have l: "length s = Suc n" and b: "set s \<subseteq> {0, 1}" by auto
    then obtain t x where s: "s = t @ [x]" by (cases s rule: rev_cases) auto
    with l b have "t \<in> set (bitlists n)" "x = 1 \<or> x = 0" using Suc.IH by auto
    then show "s \<in> set (bitlists (Suc n))" using s by auto
  qed
qed

lemma length_bitlists: "length (bitlists n) = 2 ^ n"
proof (induction n)
  case 0 then show ?case by simp
next
  case (Suc n)
  have "length (concat (map (\<lambda>s. [s @ [1], s @ [0::int]]) xs)) = 2 * length xs" for xs
    by (induction xs) auto
  then show ?case using Suc by simp
qed

lemma distinct_bitlists: "distinct (bitlists n)"
proof (induction n)
  case 0 then show ?case by simp
next
  case (Suc n)
  have "distinct xs \<Longrightarrow> distinct (concat (map (\<lambda>s. [s @ [1], s @ [0::int]]) xs))" for xs
    by (induction xs) auto
  then show ?case using Suc by simp
qed

lemma generateSubsetMasks_eq: "generateSubsetMasks (int k) = Inr (codeMasks k)"
proof -
  have "subsetHelper (replicate k 1) (int k - 1) = Inr (bitlists k)"
    by (rule subsetHelper_replicate) simp
  moreover have "purgeAllGapCase (replicate k 1) (bitlists k)
      = Inr (filter (\<lambda>s. s \<noteq> decrementedIndices (replicate k 1)) (bitlists k))"
    by (rule purgeAllGapCase_eq) (simp add: length_bitlists_elem)
  ultimately show ?thesis
    by (simp add: generateSubsetMasks_def findSubsets_def codeMasks_def decrementedIndices_def)
qed

lemma set_codeMasks: "set (codeMasks k) = {s. length s = k \<and> set s \<subseteq> {0, 1} \<and> s \<noteq> replicate k 0}"
  by (auto simp: codeMasks_def set_bitlists)

lemma distinct_codeMasks: "distinct (codeMasks k)"
  by (simp add: codeMasks_def distinct_bitlists)

lemma length_codeMasks: "length (codeMasks k) = 2 ^ k - 1"
proof -
  have mem: "replicate k 0 \<in> set (bitlists k)" by (auto simp: set_bitlists)
  have "length (filter (\<lambda>s. s \<noteq> replicate k 0) (bitlists k)) + length (filter (\<lambda>s. \<not> s \<noteq> replicate k 0) (bitlists k)) = length (bitlists k)"
    by (rule sum_length_filter_compl)
  moreover have "length (filter (\<lambda>s. \<not> s \<noteq> replicate k 0) (bitlists k)) = 1"
    using distinct_bitlists[of k] mem
    by (simp add: distinct_length_filter) 
  ultimately show ?thesis by (simp add: codeMasks_def length_bitlists)
qed

lemma nonzero_has_one: "set s \<subseteq> {0, 1::int} \<Longrightarrow> s \<noteq> replicate (length s) 0 \<Longrightarrow> 1 \<in> set s"
  by (induction s) (auto split: if_splits)

lemma recScore_base: "\<exists>i \<in> set idxs. i \<le> 0 \<Longrightarrow> recScore extra sqs idxs = 0"
  by (subst recScore.simps) simp

lemma recScore_length: "length idxs \<noteq> length sqs \<Longrightarrow> recScore extra sqs idxs = 0"
  by (subst recScore.simps) simp

lemma recScore_step:
  assumes "length idxs = length sqs" and "\<forall>i \<in> set idxs. 0 < i"
  shows "recScore extra sqs idxs =
     Max (set (extra @
             map (\<lambda>msk. recScore extra sqs (predecessor idxs msk) + columnScore (column sqs idxs msk))
               (filter (\<lambda>msk. \<forall>x \<in> set (predecessor idxs msk). 0 \<le> x) (maskSet (length sqs)))))"
proof -
  have "\<not> (\<exists>i \<in> set idxs. i \<le> 0)" using assms(2) by force
  then have c: "(length idxs \<noteq> length sqs \<or> (\<exists>i \<in> set idxs. i \<le> 0)) = False"
    using assms(1) by simp
  show ?thesis by (subst recScore.simps) (simp only: c if_False)
qed

lemma maskedIdxs_loop_ok:
  "length idxs + k \<le> length msk \<Longrightarrow> \<forall>(i, b) \<in> set (zip idxs (drop k msk)). b \<le> i \<Longrightarrow>
   maskedIdxs_loop (enumerate k idxs) msk acc = Inr (acc @ map2 (-) idxs (drop k msk), True)"
proof (induction idxs arbitrary: k acc)
  case Nil
  then show ?case by simp
next
  case (Cons idx idxs)
  from Cons.prems(1) have k: "k < length msk" by simp
  then have dr: "drop k msk = msk ! k # drop (Suc k) msk" by (simp add: Cons_nth_drop_Suc)
  have ix: "index msk k = Inr (msk ! k)" using k by (simp add: index_def)
  from Cons.prems(2) have le: "msk ! k \<le> idx" and rest: "\<forall>(i, b) \<in> set (zip idxs (drop (Suc k) msk)). b \<le> i"
    by (auto simp: dr)
  have "length idxs + Suc k \<le> length msk" using Cons.prems(1) by simp
  note IH = Cons.IH[OF this rest]
  show ?case using le by (simp add: ix dr IH)
qed

lemma maskedIdxs_ok:
  assumes "length msk = length idxs" and "set msk \<subseteq> {0, 1}" and "\<forall>i \<in> set idxs. 0 < i"
  shows "maskedIdxs idxs msk = Inr (predecessor idxs msk, True)"
proof -
  have "\<forall>(i, b) \<in> set (zip idxs (drop 0 msk)). b \<le> i"
  proof (clarsimp)
    fix i b assume "(i, b) \<in> set (zip idxs msk)"
    then have "i \<in> set idxs" "b \<in> set msk" by (auto dest: set_zip_leftD set_zip_rightD)
    with assms show "b \<le> i" by force
  qed
  then show ?thesis
    using maskedIdxs_loop_ok[of idxs 0 msk "[]"] assms(1)
    by (simp add: maskedIdxs_def predecessor_def)
qed

lemma maskedBases_loop_ok:
  "length idxs + k \<le> length msk \<Longrightarrow> length idxs + k \<le> length (seqs m) \<Longrightarrow>
   \<forall>(i, sq) \<in> set (zip idxs (drop k (seqs m))). 0 < i \<and> i \<le> int (length (bases sq)) \<Longrightarrow>
   foldE (\<lambda>(i, idx) bs.
              case index msk i of Inl e \<Rightarrow> Inl e
              | Inr mbit \<Rightarrow>
                  if mbit = 1 then
                    (case index (seqs m) i of Inl e \<Rightarrow> Inl e
                     | Inr sq \<Rightarrow>
                         (case index_int (bases sq) (idx - 1) of Inl e \<Rightarrow> Inl e
                          | Inr b \<Rightarrow> Inr (bs @ [b])))
                  else Inr (bs @ [X]))
           (enumerate k idxs) acc
    = Inr (acc @ column (drop k (seqs m)) idxs (drop k msk))"
proof (induction idxs arbitrary: k acc)
  case Nil
  then show ?case by (simp add: column_def)
next
  case (Cons idx idxs)
  from Cons.prems have k: "k < length msk" and k2: "k < length (seqs m)" by simp_all
  then have dr: "drop k msk = msk ! k # drop (Suc k) msk"
    and dr2: "drop k (seqs m) = seqs m ! k # drop (Suc k) (seqs m)"
    by (simp_all add: Cons_nth_drop_Suc)
  have ix: "index msk k = Inr (msk ! k)" "index (seqs m) k = Inr (seqs m ! k)"
    using k k2 by (simp_all add: index_def)
  from Cons.prems(3) have rng: "0 < idx" "idx \<le> int (length (bases (seqs m ! k)))"
    and rest: "\<forall>(i, sq) \<in> set (zip idxs (drop (Suc k) (seqs m))). 0 < i \<and> i \<le> int (length (bases sq))"
    by (auto simp: dr2)
  have ixb: "index_int (bases (seqs m ! k)) (idx - 1) = Inr (bases (seqs m ! k) ! nat (idx - 1))"
    using rng by (simp add: index_int_def)
  have "length idxs + Suc k \<le> length msk" "length idxs + Suc k \<le> length (seqs m)"
    using Cons.prems by simp_all
  note IH = Cons.IH[OF this rest]
  show ?case by (simp add: ix ixb dr dr2 IH column_def)
qed

lemma maskedBases_ok:
  assumes "length msk = length idxs" and "coordinate (seqs m) idxs" and "\<forall>i \<in> set idxs. 0 < i"
  shows "maskedBases m idxs msk = Inr (column (seqs m) idxs msk)"
proof -
  from assms(2) have len: "length idxs = length (seqs m)"
    by (simp add: coordinate_def list_all2_lengthD)
  have "\<forall>(i, sq) \<in> set (zip idxs (drop 0 (seqs m))). 0 < i \<and> i \<le> int (length (bases sq))"
  proof (clarsimp)
    fix i sq assume mem: "(i, sq) \<in> set (zip idxs (seqs m))"
    then have "i \<in> set idxs" by (auto dest: set_zip_leftD)
    moreover from assms(2) mem have "i \<le> int (length (bases sq))"
      by (auto simp: coordinate_def list_all2_iff)
    ultimately show "0 < i \<and> i \<le> int (length (bases sq))" using assms(3) by simp
  qed
  then show ?thesis
    using maskedBases_loop_ok[of idxs 0 msk m "[]"] assms(1) len
    by (simp add: maskedBases_def)
qed

lemma keeps_refl: "keeps m m" by (simp add: keeps_def)

lemma keeps_trans: "keeps m m1 \<Longrightarrow> keeps m1 m2 \<Longrightarrow> keeps m m2"
  by (simp add: keeps_def)

lemma coordinate_length: "coordinate sqs idxs \<Longrightarrow> length idxs = length sqs"
  by (simp add: coordinate_def list_all2_lengthD)

lemma coordinate_predecessor:
  assumes "coordinate sqs idxs" and "\<forall>i \<in> set idxs. 0 < i"
    and "length msk = length idxs" and "set msk \<subseteq> {0, 1}"
  shows "coordinate sqs (predecessor idxs msk)"
proof -
  have len: "length idxs = length sqs" using assms(1) by (rule coordinate_length)
  show ?thesis
    unfolding coordinate_def predecessor_def
  proof (rule list_all2_all_nthI)
    show "length (map2 (-) idxs msk) = length sqs" using len assms(3) by simp
  next
    fix n assume "n < length (map2 (-) idxs msk)"
    then have n: "n < length idxs" "n < length msk" by simp_all
    then have "idxs ! n \<in> set idxs" "msk ! n \<in> set msk" by simp_all
    then have "0 < idxs ! n" "msk ! n = 0 \<or> msk ! n = 1" using assms(2,4) by auto
    moreover have "idxs ! n \<le> int (length (bases (sqs ! n)))"
      using assms(1) n by (simp add: coordinate_def list_all2_conv_all_nth)
    ultimately show "0 \<le> map2 (-) idxs msk ! n \<and> map2 (-) idxs msk ! n \<le> int (length (bases (sqs ! n)))"
      using n by auto
  qed
qed

lemma coordinate_in_bounds:
  "coordinate sqs idxs \<Longrightarrow> in_bounds (sizes sqs) idxs"
  by (auto simp: coordinate_def in_bounds_def sizes_def list_all2_conv_all_nth)

lemma column_ne: "length msk = length idxs \<Longrightarrow> length sqs = length idxs \<Longrightarrow> idxs \<noteq> [] \<Longrightarrow> column sqs idxs msk \<noteq> []"
  by (cases idxs; cases msk; cases sqs) (auto simp: column_def)

lemma mask_step_ok:
  assumes st: "solver_state sqs m" and co: "coordinate sqs idxs" and pos: "\<forall>i \<in> set idxs. 0 < i"
    and msk: "length msk = length idxs" "set msk \<subseteq> {0, 1}" "idxs \<noteq> []"
    and best: "0 \<le> best"
    and rc: "rec m (predecessor idxs msk) = Inr (recScore [0] sqs (predecessor idxs msk), m1)"
    and st1: "solver_state sqs m1"
  shows "mask_step rec idxs msk (best, m) = Inr (max best (cand sqs idxs msk), m1)"
proof -
  have s1: "seqs m1 = sqs" using st1 by (simp add: solver_state_def)
  have mi: "maskedIdxs idxs msk = Inr (predecessor idxs msk, True)"
    using msk pos by (simp add: maskedIdxs_ok)
  have mb: "maskedBases m1 idxs msk = Inr (column sqs idxs msk)"
    using maskedBases_ok[of msk idxs m1] msk(1) co pos by (simp only: s1)
  have "column sqs idxs msk \<noteq> []"
    using msk(1) coordinate_length[OF co, symmetric] msk(3) by (rule column_ne)
  then have sc: "score (column sqs idxs msk) = Inr (columnScore (column sqs idxs msk))"
    by (rule score_eq)
  have mx: "max_ints [best, recScore [0] sqs (predecessor idxs msk) + columnScore (column sqs idxs msk)]
      = max best (cand sqs idxs msk)"
    using best by (simp add: max_ints_pair cand_def)
  show ?thesis
    by (simp add: mask_step_def mi rc mb sc mx)
qed

lemma mask_step_depth:
  assumes msk: "length msk = length idxs" "set msk \<subseteq> {0, 1}" and pos: "\<forall>i \<in> set idxs. 0 < i"
    and rc: "rec m (predecessor idxs msk) = Inl e"
  shows "mask_step rec idxs msk (best, m) = Inl e"
proof -
  have mi: "maskedIdxs idxs msk = Inr (predecessor idxs msk, True)"
    using msk pos by (simp add: maskedIdxs_ok)
  show ?thesis by (simp add: mask_step_def mi rc)
qed

lemma mask_loop:
  assumes co: "coordinate sqs idxs" and pos: "\<forall>i \<in> set idxs. 0 < i"
  shows "solver_state sqs m \<Longrightarrow> 0 \<le> best \<Longrightarrow>
    \<forall>msk \<in> set masks. length msk = length idxs \<and> set msk \<subseteq> {0, 1} \<and> idxs \<noteq> [] \<Longrightarrow>
    \<forall>msk \<in> set masks. \<forall>m1. solver_state sqs m1 \<longrightarrow>
       refines sqs m1 (recScore [0] sqs (predecessor idxs msk)) (rec m1 (predecessor idxs msk)) \<Longrightarrow>
    refines sqs m (Max (set (best # map (cand sqs idxs) masks)))
      (foldE (mask_step rec idxs) masks (best, m)) \<and>
    ((\<forall>msk \<in> set masks. \<forall>m1. solver_state sqs m1 \<longrightarrow>
         rec m1 (predecessor idxs msk) \<noteq> Inl DepthExceeded) \<longrightarrow>
     foldE (mask_step rec idxs) masks (best, m) \<noteq> Inl DepthExceeded)"
proof (induction masks arbitrary: best m)
  case Nil
  then show ?case by (simp add: refines_def keeps_refl)
next
  case (Cons msk masks)
  from Cons.prems(3) have msk: "length msk = length idxs" "set msk \<subseteq> {0, 1}" "idxs \<noteq> []"
    by simp_all
  from Cons.prems(4) Cons.prems(1)
  have r: "refines sqs m (recScore [0] sqs (predecessor idxs msk)) (rec m (predecessor idxs msk))"
    by simp
  show ?case
  proof (cases "rec m (predecessor idxs msk) = Inl DepthExceeded")
    case True
    have "mask_step rec idxs msk (best, m) = Inl DepthExceeded"
      using msk(1,2) pos True by (rule mask_step_depth)
    then show ?thesis
      using True Cons.prems(1) by (auto simp: refines_def)
  next
    case False
    with r obtain m1 where rc: "rec m (predecessor idxs msk) = Inr (recScore [0] sqs (predecessor idxs msk), m1)"
      and st1: "solver_state sqs m1" and k1: "keeps m m1"
      by (auto simp: refines_def)
    have step: "mask_step rec idxs msk (best, m) = Inr (max best (cand sqs idxs msk), m1)"
      using Cons.prems(1) co pos msk Cons.prems(2) rc st1 by (rule mask_step_ok)
    have b': "0 \<le> max best (cand sqs idxs msk)" using Cons.prems(2) by simp
    have p3: "\<forall>msk \<in> set masks. length msk = length idxs \<and> set msk \<subseteq> {0, 1} \<and> idxs \<noteq> []"
      using Cons.prems(3) by simp
    have p4: "\<forall>msk \<in> set masks. \<forall>m1. solver_state sqs m1 \<longrightarrow>
       refines sqs m1 (recScore [0] sqs (predecessor idxs msk)) (rec m1 (predecessor idxs msk))"
      using Cons.prems(4) by simp
    note IH = Cons.IH[OF st1 b' p3 p4]
    have mx: "Max (set (max best (cand sqs idxs msk) # map (cand sqs idxs) masks))
        = Max (set (best # map (cand sqs idxs) (msk # masks)))"
    proof (cases "masks = []")
      case True
      then show ?thesis by (simp add: max.commute)
    next
      case False
      then show ?thesis by (simp add: max.assoc)
    qed
    have fe: "foldE (mask_step rec idxs) (msk # masks) (best, m)
        = foldE (mask_step rec idxs) masks (max best (cand sqs idxs msk), m1)"
      by (simp add: step)
    have "refines sqs m (Max (set (best # map (cand sqs idxs) (msk # masks))))
        (foldE (mask_step rec idxs) (msk # masks) (best, m))"
      using IH k1 unfolding fe mx[symmetric] refines_def
      by (blast intro: keeps_trans)
    moreover have "(\<forall>msk \<in> set (msk # masks). \<forall>m1. solver_state sqs m1 \<longrightarrow>
         rec m1 (predecessor idxs msk) \<noteq> Inl DepthExceeded) \<longrightarrow>
       foldE (mask_step rec idxs) (msk # masks) (best, m) \<noteq> Inl DepthExceeded"
      using IH unfolding fe by simp
    ultimately show ?thesis by blast
  qed
qed

lemma predecessor_nonneg:
  assumes "\<forall>i \<in> set idxs. 0 < i" and "set msk \<subseteq> {0, 1}"
  shows "\<forall>x \<in> set (predecessor idxs msk). 0 \<le> x"
proof
  fix x assume "x \<in> set (predecessor idxs msk)"
  then obtain i b where "(i, b) \<in> set (zip idxs msk)" "x = i - b"
    by (auto simp: predecessor_def)
  then have "i \<in> set idxs" "b \<in> set msk" "x = i - b"
    by (auto dest: set_zip_leftD set_zip_rightD)
  with assms show "0 \<le> x" by force
qed

lemma recScore_codeMasks:
  assumes co: "coordinate sqs idxs" and pos: "\<forall>i \<in> set idxs. 0 < i"
  shows "recScore [0] sqs idxs = Max (set (0 # map (cand sqs idxs) (codeMasks (length sqs))))"
proof -
  have len: "length idxs = length sqs" using co by (rule coordinate_length)
  have "set (filter (\<lambda>msk. \<forall>x \<in> set (predecessor idxs msk). 0 \<le> x) (maskSet (length sqs)))
      = set (codeMasks (length sqs))"
    using predecessor_nonneg[OF pos] by (auto simp: set_maskSet set_codeMasks)
  then have "set (map (\<lambda>msk. recScore [0] sqs (predecessor idxs msk) + columnScore (column sqs idxs msk))
        (filter (\<lambda>msk. \<forall>x \<in> set (predecessor idxs msk). 0 \<le> x) (maskSet (length sqs))))
      = set (map (cand sqs idxs) (codeMasks (length sqs)))"
    by (simp add: cand_def[abs_def])
  then show ?thesis
    by (simp add: recScore_step[OF len pos])
qed

lemma solver_state_masks: "solver_state sqs m \<Longrightarrow> subsetMasks m = codeMasks (length sqs)"
  by (simp add: solver_state_def generateSubsetMasks_eq)

lemma optimalScore_body_refines:
  assumes st: "solver_state sqs m" and co: "coordinate sqs idxs"
    and rc: "\<forall>i \<in> set idxs. 0 < i \<Longrightarrow>
       \<forall>msk \<in> set (codeMasks (length sqs)). \<forall>m1. solver_state sqs m1 \<longrightarrow>
         refines sqs m1 (recScore [0] sqs (predecessor idxs msk)) (rec m1 (predecessor idxs msk))"
  shows "refines sqs m (recScore [0] sqs idxs) (optimalScore_body rec m idxs)"
    and "(\<forall>i \<in> set idxs. 0 < i \<Longrightarrow>
       \<forall>msk \<in> set (codeMasks (length sqs)). \<forall>m1. solver_state sqs m1 \<longrightarrow>
         rec m1 (predecessor idxs msk) \<noteq> Inl DepthExceeded) \<Longrightarrow>
      optimalScore_body rec m idxs \<noteq> Inl DepthExceeded"
proof -
  have len: "length idxs = length sqs" using co by (rule coordinate_length)
  have both: "refines sqs m (recScore [0] sqs idxs) (optimalScore_body rec m idxs) \<and>
    ((\<forall>i \<in> set idxs. 0 < i) \<longrightarrow> (\<forall>msk \<in> set (codeMasks (length sqs)). \<forall>m1. solver_state sqs m1 \<longrightarrow>
         rec m1 (predecessor idxs msk) \<noteq> Inl DepthExceeded) \<longrightarrow>
      optimalScore_body rec m idxs \<noteq> Inl DepthExceeded) \<and>
    ((\<exists>i \<in> set idxs. i \<le> 0) \<longrightarrow> optimalScore_body rec m idxs \<noteq> Inl DepthExceeded)"
  proof (cases "\<exists>i \<in> set idxs. i \<le> 0")
    case True
    then have "optimalScore_body rec m idxs = Inr (0, m)" by (simp add: optimalScore_body_def)
    moreover have "recScore [0] sqs idxs = 0" using True by (rule recScore_base)
    ultimately show ?thesis using st True by (auto simp: refines_def keeps_refl)
  next
    case False
    then have pos: "\<forall>i \<in> set idxs. 0 < i" by force
    have ib: "in_bounds (sizes sqs) idxs" using co by (rule coordinate_in_bounds)
    have ext: "extents (table m) = sizes sqs" "extents (cached m) = sizes sqs"
      using st by (simp_all add: solver_state_def)
    have atc: "nd_At (cached m) idxs = Inr (cells (cached m) idxs)"
      and att: "nd_At (table m) idxs = Inr (cells (table m) idxs)"
      using ib ext by (simp_all add: nd_At_def)
    show ?thesis
    proof (cases "cells (cached m) idxs = 1")
      case True
      then have "cells (table m) idxs = recScore [0] sqs idxs"
        using st by (simp add: solver_state_def)
      moreover have "optimalScore_body rec m idxs = Inr (cells (table m) idxs, m)"
        using False True by (simp add: optimalScore_body_def atc att)
      ultimately show ?thesis using st False by (auto simp: refines_def keeps_refl)
    next
      case nc: False
      let ?masks = "codeMasks (length sqs)"
      let ?L = "foldE (mask_step rec idxs) ?masks (0, m)"
      have body: "optimalScore_body rec m idxs =
          (case ?L of Inl e \<Rightarrow> Inl e
           | Inr (best, m1) \<Rightarrow>
               (case nd_Set (table m1) best idxs of Inl e \<Rightarrow> Inl e
                | Inr t \<Rightarrow>
                    (case nd_Set (cached m1) 1 idxs of Inl e \<Rightarrow> Inl e
                     | Inr c \<Rightarrow> Inr (best, m1\<lparr>table := t, cached := c\<rparr>))))"
        using False nc by (simp add: optimalScore_body_def atc solver_state_masks[OF st])
      have mk: "\<forall>msk \<in> set ?masks. length msk = length idxs \<and> set msk \<subseteq> {0, 1} \<and> idxs \<noteq> []"
        using len by (auto simp: set_codeMasks)
      have loop: "refines sqs m (Max (set (0 # map (cand sqs idxs) ?masks))) ?L \<and>
         ((\<forall>msk \<in> set ?masks. \<forall>m1. solver_state sqs m1 \<longrightarrow>
             rec m1 (predecessor idxs msk) \<noteq> Inl DepthExceeded) \<longrightarrow> ?L \<noteq> Inl DepthExceeded)"
        using co pos st _ mk rc[OF pos] by (rule mask_loop) simp
      have val: "Max (set (0 # map (cand sqs idxs) ?masks)) = recScore [0] sqs idxs"
        using recScore_codeMasks[OF co pos] by simp
      show ?thesis
      proof (cases "?L = Inl DepthExceeded")
        case True
        then have "optimalScore_body rec m idxs = Inl DepthExceeded" by (simp add: body)
        then show ?thesis using loop True False by (auto simp: refines_def)
      next
        case nd: False
        with loop obtain m1 where L: "?L = Inr (recScore [0] sqs idxs, m1)"
          and st1: "solver_state sqs m1" and k1: "keeps m m1"
          unfolding val refines_def by blast
        let ?v = "recScore [0] sqs idxs"
        let ?m' = "m1\<lparr>table := (table m1)\<lparr>cells := (cells (table m1))(idxs := ?v)\<rparr>,
                      cached := (cached m1)\<lparr>cells := (cells (cached m1))(idxs := 1)\<rparr>\<rparr>"
        have ext1: "extents (table m1) = sizes sqs" "extents (cached m1) = sizes sqs"
          using st1 by (simp_all add: solver_state_def)
        have res: "optimalScore_body rec m idxs = Inr (?v, ?m')"
          using ib by (simp add: body L nd_Set_def ext1)
        have st': "solver_state sqs ?m'"
          using st1 by (simp add: solver_state_def)
        have k': "keeps m ?m'"
          using k1 nc by (auto simp: keeps_def)
        show ?thesis using res st' k' False by (auto simp: refines_def)
      qed
    qed
  qed
  show "refines sqs m (recScore [0] sqs idxs) (optimalScore_body rec m idxs)"
    using both by blast
  show "optimalScore_body rec m idxs \<noteq> Inl DepthExceeded"
    if "\<forall>i \<in> set idxs. 0 < i \<Longrightarrow>
       \<forall>msk \<in> set (codeMasks (length sqs)). \<forall>m1. solver_state sqs m1 \<longrightarrow>
         rec m1 (predecessor idxs msk) \<noteq> Inl DepthExceeded"
  proof (cases "\<exists>i \<in> set idxs. i \<le> 0")
    case True
    then show ?thesis using both by blast
  next
    case False
    then have pos: "\<forall>i \<in> set idxs. 0 < i" by force
    from that[OF pos] both pos show ?thesis by blast
  qed
qed

lemma codeMasks_0: "codeMasks 0 = []"
  by (simp add: codeMasks_def)

lemma optimalScore_refines:
  "solver_state sqs m \<Longrightarrow> coordinate sqs idxs \<Longrightarrow>
   refines sqs m (recScore [0] sqs idxs) (optimalScore d m idxs) \<and>
   (sum_list idxs \<le> int d \<longrightarrow> optimalScore d m idxs \<noteq> Inl DepthExceeded)"
proof (induction d arbitrary: m idxs)
  case 0
  have r: "refines sqs m (recScore [0] sqs idxs) (optimalScore_body (\<lambda>m idxs. Inl DepthExceeded) m idxs)"
    using "0.prems" by (rule optimalScore_body_refines(1)) (simp add: refines_def)
  have "optimalScore_body (\<lambda>m idxs. Inl DepthExceeded) m idxs \<noteq> Inl DepthExceeded"
    if le: "sum_list idxs \<le> 0"
    using "0.prems"
  proof (rule optimalScore_body_refines(2))
    assume pos: "\<forall>i \<in> set idxs. 0 < i"
    then have "idxs = []" using le by (rule sum_list_pos_empty)
    then have "length sqs = 0" using coordinate_length[OF "0.prems"(2)] by simp
    then show "\<forall>msk \<in> set (codeMasks (length sqs)). \<forall>m1. solver_state sqs m1 \<longrightarrow>
         (\<lambda>m idxs. Inl DepthExceeded) m1 (predecessor idxs msk) \<noteq> (Inl DepthExceeded :: error + (int \<times> multiDP))"
      by (simp add: codeMasks_0)
  qed (simp add: refines_def)
  with r show ?case by simp
next
  case (Suc d)
  have rc: "\<forall>msk \<in> set (codeMasks (length sqs)). \<forall>m1. solver_state sqs m1 \<longrightarrow>
         refines sqs m1 (recScore [0] sqs (predecessor idxs msk)) (optimalScore d m1 (predecessor idxs msk))"
    if pos: "\<forall>i \<in> set idxs. 0 < i"
  proof (intro ballI allI impI)
    fix msk m1 assume msk: "msk \<in> set (codeMasks (length sqs))" and st1: "solver_state sqs m1"
    have "coordinate sqs (predecessor idxs msk)"
      using Suc.prems(2) pos msk coordinate_length[OF Suc.prems(2)]
      by (intro coordinate_predecessor) (auto simp: set_codeMasks)
    with Suc.IH[OF st1] show "refines sqs m1 (recScore [0] sqs (predecessor idxs msk)) (optimalScore d m1 (predecessor idxs msk))"
      by blast
  qed
  have r: "refines sqs m (recScore [0] sqs idxs) (optimalScore_body (optimalScore d) m idxs)"
    using Suc.prems rc by (rule optimalScore_body_refines(1))
  have "optimalScore_body (optimalScore d) m idxs \<noteq> Inl DepthExceeded"
    if le: "sum_list idxs \<le> int (Suc d)"
    using Suc.prems rc
  proof (rule optimalScore_body_refines(2))
    assume pos: "\<forall>i \<in> set idxs. 0 < i"
    show "\<forall>msk \<in> set (codeMasks (length sqs)). \<forall>m1. solver_state sqs m1 \<longrightarrow>
         optimalScore d m1 (predecessor idxs msk) \<noteq> Inl DepthExceeded"
    proof (intro ballI allI impI)
      fix msk m1 assume msk: "msk \<in> set (codeMasks (length sqs))" and st1: "solver_state sqs m1"
      have len: "length idxs = length sqs" using Suc.prems(2) by (rule coordinate_length)
      have co': "coordinate sqs (predecessor idxs msk)"
        using Suc.prems(2) pos msk len
        by (intro coordinate_predecessor) (auto simp: set_codeMasks)
      have "sum_list (predecessor idxs msk) < sum_list idxs"
        using msk len by (intro predecessor_sum) (auto simp: set_codeMasks)
      then have "sum_list (predecessor idxs msk) \<le> int d" using le by simp
      with Suc.IH[OF st1 co'] show "optimalScore d m1 (predecessor idxs msk) \<noteq> Inl DepthExceeded"
        by blast
    qed
  qed
  with r show ?case by simp
qed

lemma sum_list_mset_cong:
  "mset xs = mset ys \<Longrightarrow> sum_list (map f xs) = sum_list (map (f :: 'a \<Rightarrow> int) ys)"
proof -
  assume "mset xs = mset ys"
  then have "sum_mset (image_mset f (mset xs)) = sum_mset (image_mset f (mset ys))" by simp
  then have "sum_mset (mset (map f xs)) = sum_mset (mset (map f ys))" by simp
  then show ?thesis by (simp only: sum_mset_sum_list)
qed

lemma columnScore_double:
  "2 * columnScore xs =
     sum_list (map (\<lambda>x. sum_list (map (pairScore x) xs)) xs) - sum_list (map (\<lambda>x. pairScore x x) xs)"
proof (induction xs)
  case Nil
  then show ?case by simp
next
  case (Cons a xs)
  have sym: "sum_list (map (\<lambda>x. pairScore x a) xs) = sum_list (map (pairScore a) xs)"
    by (simp add: pairScore_sym[of _ a])
  have "sum_list (map (\<lambda>x. sum_list (map (pairScore x) (a # xs))) xs)
      = sum_list (map (\<lambda>x. pairScore x a) xs) + sum_list (map (\<lambda>x. sum_list (map (pairScore x) xs)) xs)"
    by (simp add: sum_list_addf)
  then show ?case using Cons.IH sym by simp
qed

lemma columnScore_mset:
  assumes "mset xs = mset ys"
  shows "columnScore xs = columnScore ys"
proof -
  have inner: "sum_list (map (pairScore x) xs) = sum_list (map (pairScore x) ys)" for x
    using assms by (rule sum_list_mset_cong)
  have "sum_list (map (\<lambda>x. sum_list (map (pairScore x) xs)) xs)
      = sum_list (map (\<lambda>x. sum_list (map (pairScore x) ys)) xs)"
    by (simp add: inner)
  also have "\<dots> = sum_list (map (\<lambda>x. sum_list (map (pairScore x) ys)) ys)"
    using assms by (rule sum_list_mset_cong)
  finally have a: "sum_list (map (\<lambda>x. sum_list (map (pairScore x) xs)) xs)
      = sum_list (map (\<lambda>x. sum_list (map (pairScore x) ys)) ys)" .
  have b: "sum_list (map (\<lambda>x. pairScore x x) xs) = sum_list (map (\<lambda>x. pairScore x x) ys)"
    using assms by (rule sum_list_mset_cong)
  have "2 * columnScore xs = 2 * columnScore ys"
    by (simp only: columnScore_double a b)
  then show ?thesis by simp
qed

lemma zip3_views:
  assumes "length sqs = length idxs" and "length idxs = length msk"
  shows "predecessor idxs msk = map (\<lambda>((s, i), b). i - b) (zip (zip sqs idxs) msk)"
    and "zip sqs (predecessor idxs msk) = map (\<lambda>((s, i), b). (s, i - b)) (zip (zip sqs idxs) msk)"
    and "column sqs idxs msk =
           map (\<lambda>((s, i), b). if b = 1 then bases s ! nat (i - 1) else X) (zip (zip sqs idxs) msk)"
    and "msk = map snd (zip (zip sqs idxs) msk)"
  using assms
  by (induction sqs idxs msk rule: list_induct3; simp add: predecessor_def column_def)+

lemma zip3_transfer:
  assumes eq: "mset (zip (zip sqs' idxs') msk') = mset (zip (zip sqs idxs) msk)"
    and l: "length sqs = length idxs" "length idxs = length msk"
    and l': "length sqs' = length idxs'" "length idxs' = length msk'"
  shows "mset (predecessor idxs' msk') = mset (predecessor idxs msk)"
    and "mset (zip sqs' (predecessor idxs' msk')) = mset (zip sqs (predecessor idxs msk))"
    and "mset (column sqs' idxs' msk') = mset (column sqs idxs msk)"
    and "mset msk' = mset msk"
proof -
  show "mset (predecessor idxs' msk') = mset (predecessor idxs msk)"
    by (simp only: zip3_views(1)[OF l] zip3_views(1)[OF l'] mset_map eq)
  show "mset (zip sqs' (predecessor idxs' msk')) = mset (zip sqs (predecessor idxs msk))"
    by (simp only: zip3_views(2)[OF l] zip3_views(2)[OF l'] mset_map eq)
  show "mset (column sqs' idxs' msk') = mset (column sqs idxs msk)"
    by (simp only: zip3_views(3)[OF l] zip3_views(3)[OF l'] mset_map eq)
  have "mset (map snd (zip (zip sqs' idxs') msk')) = mset (map snd (zip (zip sqs idxs) msk))"
    by (simp only: mset_map eq)
  then show "mset msk' = mset msk"
    using zip3_views(4)[OF l] zip3_views(4)[OF l'] by simp
qed

lemma bits_nonzero_iff:
  "set msk \<subseteq> {0, 1 :: int} \<Longrightarrow> (msk \<noteq> replicate (length msk) 0) = (1 \<in> set msk)"
  by (induction msk) auto

lemma recScore_perm_aux:
  "nat (sum_list idxs) = n \<Longrightarrow> length idxs = length sqs \<Longrightarrow> length idxs' = length sqs' \<Longrightarrow>
   mset (zip sqs idxs) = mset (zip sqs' idxs') \<Longrightarrow>
   recScore e sqs idxs = recScore e sqs' idxs'"
proof (induction n arbitrary: sqs idxs sqs' idxs' rule: less_induct)
  case (less n)
  have sub: "set (map (\<lambda>msk. recScore e s1 (predecessor i1 msk) + columnScore (column s1 i1 msk))
               (filter (\<lambda>msk. \<forall>x \<in> set (predecessor i1 msk). 0 \<le> x) (maskSet (length s1))))
          \<subseteq> set (map (\<lambda>msk. recScore e s2 (predecessor i2 msk) + columnScore (column s2 i2 msk))
               (filter (\<lambda>msk. \<forall>x \<in> set (predecessor i2 msk). 0 \<le> x) (maskSet (length s2))))"
    if n: "nat (sum_list i1) = n" and l1: "length i1 = length s1" and l2: "length i2 = length s2"
      and eq: "mset (zip s1 i1) = mset (zip s2 i2)" and pos: "\<forall>i \<in> set i1. 0 < i"
    for s1 i1 s2 i2
  proof
    fix v
    assume "v \<in> set (map (\<lambda>msk. recScore e s1 (predecessor i1 msk) + columnScore (column s1 i1 msk))
               (filter (\<lambda>msk. \<forall>x \<in> set (predecessor i1 msk). 0 \<le> x) (maskSet (length s1))))"
    then obtain msk where msk: "msk \<in> set (maskSet (length s1))"
      and ok: "\<forall>x \<in> set (predecessor i1 msk). 0 \<le> x"
      and v: "v = recScore e s1 (predecessor i1 msk) + columnScore (column s1 i1 msk)"
      by auto
    from msk have m: "length msk = length s1" "set msk \<subseteq> {0, 1}" "msk \<noteq> replicate (length s1) 0"
      by (simp_all add: set_maskSet)
    have lz: "length (zip s1 i1) = length msk" using l1 m(1) by simp
    from ex_mset_zip_left[OF lz eq[symmetric]]
    obtain msk' where lm': "length msk' = length (zip s2 i2)"
      and tz: "mset (zip (zip s2 i2) msk') = mset (zip (zip s1 i1) msk)"
      by blast
    have la: "length s1 = length i1" "length i1 = length msk" using l1 m(1) by simp_all
    have lb: "length s2 = length i2" "length i2 = length msk'" using l2 lm' by simp_all
    note tr = zip3_transfer[OF tz la lb]
    have sz: "length s2 = length s1"
      using arg_cong[OF eq, of size] l1 l2 by simp
    have sm: "set msk' = set msk" using tr(4) by (rule mset_eq_setD)
    have "1 \<in> set msk" using m bits_nonzero_iff[of msk] by simp
    then have "msk' \<noteq> replicate (length msk') 0"
      using sm m(2) bits_nonzero_iff[of msk'] by simp
    then have msk': "msk' \<in> set (maskSet (length s2))"
      using lb sm m(2) by (simp add: set_maskSet)
    have ok': "\<forall>x \<in> set (predecessor i2 msk'). 0 \<le> x"
      using ok mset_eq_setD[OF tr(1)] by simp
    have dec: "sum_list (predecessor i1 msk) < sum_list i1"
      using la(2) m(2,3) l1 by (intro predecessor_sum) simp_all
    have "0 < sum_list i1"
    proof (rule ccontr)
      assume "\<not> 0 < sum_list i1"
      then have "i1 = []" using pos sum_list_pos_empty[of i1] by simp
      with m l1 show False by simp
    qed
    with dec n have lt: "nat (sum_list (predecessor i1 msk)) < n" by simp
    have lp: "length (predecessor i1 msk) = length s1" "length (predecessor i2 msk') = length s2"
      using la lb by (simp_all add: predecessor_def)
    have r: "recScore e s1 (predecessor i1 msk) = recScore e s2 (predecessor i2 msk')"
      using less.IH[OF lt refl lp tr(2)[symmetric]] .
    have c: "columnScore (column s1 i1 msk) = columnScore (column s2 i2 msk')"
      using tr(3)[symmetric] by (rule columnScore_mset)
    show "v \<in> set (map (\<lambda>msk. recScore e s2 (predecessor i2 msk) + columnScore (column s2 i2 msk))
               (filter (\<lambda>msk. \<forall>x \<in> set (predecessor i2 msk). 0 \<le> x) (maskSet (length s2))))"
      using msk' ok' v r c by auto
  qed
  have mi: "mset idxs = mset idxs'"
  proof -
    have "mset (map snd (zip sqs idxs)) = mset (map snd (zip sqs' idxs'))"
      using less.prems(4) by (simp only: mset_map)
    then show ?thesis using less.prems(2,3) by simp
  qed
  then have si: "set idxs = set idxs'" by (rule mset_eq_setD)
  have sl: "sum_list idxs' = sum_list idxs"
    using sum_list_mset_cong[OF mi, of "\<lambda>x. x"] by simp
  show ?case
  proof (cases "\<exists>i \<in> set idxs. i \<le> 0")
    case True
    then show ?thesis using si by (simp add: recScore_base)
  next
    case False
    then have pos: "\<forall>i \<in> set idxs. 0 < i" and pos': "\<forall>i \<in> set idxs'. 0 < i"
      using si by force+
    have n': "nat (sum_list idxs') = n" using less.prems(1) sl by simp
    have "set (map (\<lambda>msk. recScore e sqs (predecessor idxs msk) + columnScore (column sqs idxs msk))
               (filter (\<lambda>msk. \<forall>x \<in> set (predecessor idxs msk). 0 \<le> x) (maskSet (length sqs))))
          = set (map (\<lambda>msk. recScore e sqs' (predecessor idxs' msk) + columnScore (column sqs' idxs' msk))
               (filter (\<lambda>msk. \<forall>x \<in> set (predecessor idxs' msk). 0 \<le> x) (maskSet (length sqs'))))"
      using sub[OF less.prems(1,2,3,4) pos] sub[OF n' less.prems(3,2) less.prems(4)[symmetric] pos']
      by (rule subset_antisym)
    then show ?thesis
      by (simp add: recScore_step[OF less.prems(2) pos] recScore_step[OF less.prems(3) pos'])
  qed
qed

lemma recScore_perm:
  assumes "mset sqs = mset sqs'"
  shows "recScore e sqs (map (\<lambda>s. int (length (bases s))) sqs)
       = recScore e sqs' (map (\<lambda>s. int (length (bases s))) sqs')"
proof -
  have z: "zip xs (map f xs) = map (\<lambda>x. (x, f x)) xs" for xs :: "Sequence list" and f :: "Sequence \<Rightarrow> int"
    by (induction xs) auto
  have "mset (zip sqs (map (\<lambda>s. int (length (bases s))) sqs))
      = mset (zip sqs' (map (\<lambda>s. int (length (bases s))) sqs'))"
    by (simp only: z mset_map assms)
  then show ?thesis
    by (intro recScore_perm_aux[OF refl]) simp_all
qed

lemma convertStringSequence_eq:
  "convertStringSequence sq = \<lparr>bases = map (\<lambda>b. convertStringBase [b]) sq\<rparr>"
proof -
  have "foldl (\<lambda>s b. s\<lparr>bases := bases s @ [convertStringBase [b]]\<rparr>) s0 sq
      = s0\<lparr>bases := bases s0 @ map (\<lambda>b. convertStringBase [b]) sq\<rparr>" for s0 :: Sequence
    by (induction sq arbitrary: s0) auto
  then show ?thesis by (simp add: convertStringSequence_def NewSequence_def)
qed

lemma length_convertStringSequence: "length (bases (convertStringSequence sq)) = length sq"
  by (simp add: convertStringSequence_eq)

lemma foldl_append_map: "foldl (\<lambda>acc x. acc @ [f x]) acc xs = acc @ map f xs"
  by (induction xs arbitrary: acc) auto

lemma newMultiDP_eq: "newMultiDP s = Inr (fresh s)"
  by (simp add: newMultiDP_def generateSubsetMasks_eq fresh_def)

lemma solver_state_fresh: "solver_state s (fresh s)"
  by (simp add: solver_state_def fresh_def generateSubsetMasks_eq nd_NewArray_def)

lemma maxIndices_eq: "maxIndices m = map (\<lambda>s. int (length (bases s))) (seqs m)"
  by (simp add: maxIndices_def sizes_def)

lemma coordinate_maxIndices: "coordinate (seqs m) (maxIndices m)"
  by (simp add: maxIndices_eq coordinate_def list_all2_conv_all_nth)

lemma sum_list_maxIndices:
  "sum_list (maxIndices (fresh (map convertStringSequence strs))) = int (sum_list (map length strs))"
  by (induction strs) (simp_all add: maxIndices_eq fresh_def length_convertStringSequence)

lemma optimalScore_enough:
  assumes st: "solver_state sqs m" and co: "coordinate sqs idxs" and d: "sum_list idxs \<le> int d"
  obtains m' where "optimalScore d m idxs = Inr (recScore [0] sqs idxs, m')"
    and "solver_state sqs m'" and "keeps m m'"
  using optimalScore_refines[OF st co, of d] d unfolding refines_def by blast

lemma Solve_enough:
  assumes "sum_list (map length strs) \<le> d"
  shows "Solve d strs =
    Inr (real_of_int (recScore [0] (map convertStringSequence strs)
           (map (\<lambda>s. int (length (bases s))) (map convertStringSequence strs))) / 2)"
proof -
  let ?sqs = "map convertStringSequence strs"
  have sq: "seqs (fresh ?sqs) = ?sqs" by (simp add: fresh_def)
  have co: "coordinate ?sqs (maxIndices (fresh ?sqs))"
    using coordinate_maxIndices[of "fresh ?sqs"] by (simp only: sq)
  have le: "sum_list (maxIndices (fresh ?sqs)) \<le> int d"
    using assms by (simp add: sum_list_maxIndices)
  obtain m' where r: "optimalScore d (fresh ?sqs) (maxIndices (fresh ?sqs))
      = Inr (recScore [0] ?sqs (maxIndices (fresh ?sqs)), m')"
    using optimalScore_enough[OF solver_state_fresh co le] by blast
  have mi: "maxIndices (fresh ?sqs) = map (\<lambda>s. int (length (bases s))) ?sqs"
    by (simp only: maxIndices_eq sq)
  have "Solve d strs = solve d (fresh ?sqs)"
    by (simp add: Solve_def foldl_append_map newMultiDP_eq)
  also have "\<dots> = Inr (real_of_int (recScore [0] ?sqs (maxIndices (fresh ?sqs))) / 2)"
    by (simp only: solve_def r sum.case prod.case)
  finally show ?thesis by (simp only: mi)
qed

lemma recScore_nonneg: "0 \<le> recScore [0] sqs idxs"
proof (cases "length idxs \<noteq> length sqs \<or> (\<exists>i \<in> set idxs. i \<le> 0)")
  case True
  then have "recScore [0] sqs idxs = 0"
    using recScore_base[of idxs "[0]" sqs] recScore_length[of idxs sqs "[0]"] by blast
  then show ?thesis by simp
next
  case False
  then have l: "length idxs = length sqs" and pos: "\<forall>i \<in> set idxs. 0 < i" by force+
  show ?thesis
    by (simp only: recScore_step[OF l pos]) (simp add: Max_ge_iff)
qed

lemma max_ints_ge: "0 \<le> a \<Longrightarrow> 0 \<le> max_ints [a, b]"
  by (simp add: max_ints_pair)

lemma mask_step_nonneg:
  assumes rc: "\<And>m idxs. nonneg_result m (rec m idxs)"
    and "mask_step rec idxs msk (best, m) = Inr (b', m')" and "0 \<le> best" and "nonneg_table m"
  shows "0 \<le> b' \<and> nonneg_table m'"
proof (cases "maskedIdxs idxs msk")
  case (Inl e)
  with assms(2) show ?thesis by (simp add: mask_step_def)
next
  case (Inr p)
  obtain mIdxs ok where p: "p = (mIdxs, ok)" by (cases p)
  show ?thesis
  proof (cases ok)
    case False
    with assms Inr p show ?thesis by (simp add: mask_step_def)
  next
    case True
    show ?thesis
    proof (cases "rec m mIdxs")
      case (Inl e)
      with assms(2) Inr p True show ?thesis by (simp add: mask_step_def)
    next
      case r: (Inr q)
      obtain optScore m1 where q: "q = (optScore, m1)" by (cases q)
      have "nonneg_result m (rec m mIdxs)" by (rule rc)
      then have n1: "nonneg_table m1" using r q assms(4) by (simp add: nonneg_result_def)
      from assms(2) Inr p True r q
      obtain sc where "b' = max_ints [best, optScore + sc]" and "m' = m1"
        by (auto simp: mask_step_def split: sum.splits)
      then show ?thesis using n1 assms(3) by (simp add: max_ints_ge)
    qed
  qed
qed

lemma mask_loop_nonneg:
  assumes rc: "\<And>m idxs. nonneg_result m (rec m idxs)"
  shows "foldE (mask_step rec idxs) masks (best, m) = Inr (b', m') \<Longrightarrow> 0 \<le> best \<Longrightarrow>
     nonneg_table m \<Longrightarrow> 0 \<le> b' \<and> nonneg_table m'"
proof (induction masks arbitrary: best m)
  case Nil
  then show ?case by simp
next
  case (Cons msk masks)
  show ?case
  proof (cases "mask_step rec idxs msk (best, m)")
    case (Inl e)
    with Cons.prems(1) show ?thesis by simp
  next
    case (Inr p)
    obtain b1 m1 where p: "p = (b1, m1)" by (cases p)
    have s: "mask_step rec idxs msk (best, m) = Inr (b1, m1)" using Inr p by simp
    have "0 \<le> b1 \<and> nonneg_table m1"
      using rc s Cons.prems(2,3) by (rule mask_step_nonneg)
    moreover have "foldE (mask_step rec idxs) masks (b1, m1) = Inr (b', m')"
      using Cons.prems(1) s by simp
    ultimately show ?thesis using Cons.IH by blast
  qed
qed

lemma optimalScore_body_nonneg:
  assumes rc: "\<And>m idxs. nonneg_result m (rec m idxs)"
  shows "nonneg_result m (optimalScore_body rec m idxs)"
proof (cases "optimalScore_body rec m idxs")
  case (Inl e)
  then show ?thesis by (simp add: nonneg_result_def)
next
  case (Inr p)
  obtain v m' where p: "p = (v, m')" by (cases p)
  have "0 \<le> v \<and> nonneg_table m'" if nn: "nonneg_table m"
  proof (cases "\<exists>i \<in> set idxs. i \<le> 0")
    case True
    with Inr p nn show ?thesis by (simp add: optimalScore_body_def)
  next
    case nb: False
    show ?thesis
    proof (cases "nd_At (cached m) idxs = Inr 1")
      case True
      with Inr p nb have "v = cells (table m) idxs \<and> m' = m"
        by (auto simp: optimalScore_body_def nd_At_def split: sum.splits if_splits)
      with nn show ?thesis by (simp add: nonneg_table_def)
    next
      case False
      with Inr p nb obtain m1 where L: "foldE (mask_step rec idxs) (subsetMasks m) (0, m) = Inr (v, m1)"
        and m': "m' = m1\<lparr>table := (table m1)\<lparr>cells := (cells (table m1))(idxs := v)\<rparr>,
                        cached := (cached m1)\<lparr>cells := (cells (cached m1))(idxs := 1)\<rparr>\<rparr>"
        by (auto simp: optimalScore_body_def nd_Set_def split: sum.splits if_splits prod.splits)
      have "0 \<le> v \<and> nonneg_table m1"
        using rc L _ nn by (rule mask_loop_nonneg) simp
      then show ?thesis by (simp add: m' nonneg_table_def)
    qed
  qed
  then show ?thesis using Inr p by (simp add: nonneg_result_def)
qed

lemma optimalScore_nonneg: "nonneg_result m (optimalScore d m idxs)"
proof (induction d arbitrary: m idxs)
  case 0
  show ?case
    unfolding optimalScore.simps
    by (rule optimalScore_body_nonneg) (simp add: nonneg_result_def)
next
  case (Suc d)
  show ?case
    unfolding optimalScore.simps
    by (rule optimalScore_body_nonneg) (rule Suc.IH)
qed

lemma distinct_count_list_one: "distinct xs \<Longrightarrow> x \<in> set xs \<Longrightarrow> count_list xs x = 1"
  by (induction xs) auto

lemma Solve_depth_irrelevant:
  "sum_list (map length strs) \<le> d \<Longrightarrow> sum_list (map length strs) \<le> d' \<Longrightarrow>
   Solve d strs = Solve d' strs"
  by (simp add: Solve_enough)

lemma maskSet_1: "maskSet (Suc 0) = [[1]]"
  by (simp add: maskSet_def)

lemma recScore_single: "recScore [0] [sq] [i] = 0"
proof (induction "nat i" arbitrary: i)
  case 0
  then have "\<exists>j \<in> set [i]. j \<le> 0" by simp
  then show ?case by (rule recScore_base)
next
  case (Suc n)
  then have pos: "\<forall>j \<in> set [i]. 0 < j" and n: "n = nat (i - 1)" by simp_all
  have IH: "recScore [0] [sq] [i - 1] = 0" using Suc.hyps(1)[OF n] .
  have "recScore [0] [sq] [i] =
     Max (set ([0] @
             map (\<lambda>msk. recScore [0] [sq] (predecessor [i] msk) + columnScore (column [sq] [i] msk))
               (filter (\<lambda>msk. \<forall>x \<in> set (predecessor [i] msk). 0 \<le> x) (maskSet (length [sq])))))"
    using pos by (intro recScore_step) simp_all
  also have "\<dots> = 0"
    using pos by (simp add: maskSet_1 predecessor_def column_def IH)
  finally show ?case .
qed

lemma Solve_returns_nonneg:
  assumes "sum_list (map length strs) \<le> d"
  shows "\<exists>r. Solve d strs = Inr r \<and> 0 \<le> r"
proof (intro exI conjI)
  show "Solve d strs =
    Inr (real_of_int (recScore [0] (map convertStringSequence strs)
           (map (\<lambda>s. int (length (bases s))) (map convertStringSequence strs))) / 2)"
    using assms by (rule Solve_enough)
  show "0 \<le> real_of_int (recScore [0] (map convertStringSequence strs)
           (map (\<lambda>s. int (length (bases s))) (map convertStringSequence strs))) / 2"
    using recScore_nonneg by simp
qed





lemma predecessor_nth:
  "n < length idxs \<Longrightarrow> n < length msk \<Longrightarrow> predecessor idxs msk ! n = idxs ! n - msk ! n"
  by (simp add: predecessor_def)

lemma predecessor_step:
  assumes "msk \<in> set (codeMasks (length idxs))"
  shows "sum_list (predecessor idxs msk) < sum_list idxs \<and>
    (\<exists>n < length idxs. predecessor idxs msk ! n = idxs ! n - 1) \<and>
    (\<forall>n < length idxs. predecessor idxs msk ! n \<le> idxs ! n)"
proof -
  from assms have m: "length msk = length idxs" "set msk \<subseteq> {0, 1}" "msk \<noteq> replicate (length idxs) 0"
    by (simp_all add: set_codeMasks)
  have "1 \<in> set msk" using m nonzero_has_one[of msk] by simp
  then obtain n where n: "n < length msk" "msk ! n = 1" by (auto simp: in_set_conv_nth)
  then have one: "\<exists>n < length idxs. predecessor idxs msk ! n = idxs ! n - 1"
    using m(1) predecessor_nth[of n idxs msk] by auto
  have le: "\<forall>n < length idxs. predecessor idxs msk ! n \<le> idxs ! n"
  proof (intro allI impI)
    fix j assume j: "j < length idxs"
    then have "msk ! j \<in> set msk" using m(1) by simp
    then have "0 \<le> msk ! j" using m(2) by auto
    then show "predecessor idxs msk ! j \<le> idxs ! j"
      using j m(1) by (simp add: predecessor_nth)
  qed
  show ?thesis using predecessor_sum[OF m] one le by blast
qed

lemma codeMasks_2: "codeMasks (Suc (Suc 0)) = [[1, 1], [1, 0], [0, 1]]"
  by (simp add: codeMasks_def)

lemma run_A_C: "optimalScore 1 (fresh seqs_A_C) [1, 1] = Inr (0, state_A_C)"
  by (simp add: fresh_def seqs_A_C_def state_A_C_def codeMasks_2 optimalScore_body_def
      nd_At_def nd_Set_def nd_NewArray_def in_bounds_def sizes_def mask_step_def maskedIdxs_def
      maskedBases_def index_def index_int_def score_def max_ints_def pairScore_def
      match_def mismatch_def gap_def)


lemma coordinate_A_C: "coordinate seqs_A_C [1, 1]"
  by (simp add: coordinate_def seqs_A_C_def)

lemma solver_candidates:
  assumes st: "solver_state sqs m" and co: "coordinate sqs idxs" and pos: "\<forall>i \<in> set idxs. 0 < i"
  shows "{recScore [0] sqs p + sc | msk p bs sc.
            msk \<in> set (subsetMasks m) \<and> maskedIdxs idxs msk = Inr (p, True) \<and>
            maskedBases m idxs msk = Inr bs \<and> score bs = Inr sc}
         = cand sqs idxs ` set (codeMasks (length sqs))"
proof -
  have len: "length idxs = length sqs" using co by (rule coordinate_length)
  have sq: "seqs m = sqs" using st by (simp add: solver_state_def)
  have facts: "maskedIdxs idxs msk = Inr (predecessor idxs msk, True) \<and>
      maskedBases m idxs msk = Inr (column sqs idxs msk) \<and>
      score (column sqs idxs msk) = Inr (columnScore (column sqs idxs msk))"
    if "msk \<in> set (codeMasks (length sqs))" for msk
  proof -
    from that have m: "length msk = length idxs" "set msk \<subseteq> {0, 1}" "idxs \<noteq> []"
      using len by (auto simp: set_codeMasks)
    have "maskedIdxs idxs msk = Inr (predecessor idxs msk, True)"
      using m(1,2) pos by (rule maskedIdxs_ok)
    moreover have "maskedBases m idxs msk = Inr (column sqs idxs msk)"
      using maskedBases_ok[of msk idxs m] m(1) co pos by (simp only: sq)
    moreover have "column sqs idxs msk \<noteq> []"
      using m(1) len[symmetric] m(3) by (rule column_ne)
    then have "score (column sqs idxs msk) = Inr (columnScore (column sqs idxs msk))"
      by (rule score_eq)
    ultimately show ?thesis by blast
  qed
  show ?thesis
    unfolding solver_state_masks[OF st]
  proof (intro set_eqI iffI)
    fix x
    assume "x \<in> {recScore [0] sqs p + sc | msk p bs sc.
            msk \<in> set (codeMasks (length sqs)) \<and> maskedIdxs idxs msk = Inr (p, True) \<and>
            maskedBases m idxs msk = Inr bs \<and> score bs = Inr sc}"
    then obtain msk p bs sc where x: "x = recScore [0] sqs p + sc"
      and mem: "msk \<in> set (codeMasks (length sqs))"
      and r: "maskedIdxs idxs msk = Inr (p, True)" "maskedBases m idxs msk = Inr bs" "score bs = Inr sc"
      by blast
    from facts[OF mem] r have "p = predecessor idxs msk" "bs = column sqs idxs msk"
      by simp_all
    with facts[OF mem] r(3) have "x = cand sqs idxs msk" by (simp add: x cand_def)
    with mem show "x \<in> cand sqs idxs ` set (codeMasks (length sqs))" by blast
  next
    fix x assume "x \<in> cand sqs idxs ` set (codeMasks (length sqs))"
    then obtain msk where mem: "msk \<in> set (codeMasks (length sqs))" and x: "x = cand sqs idxs msk"
      by blast
    show "x \<in> {recScore [0] sqs p + sc | msk p bs sc.
            msk \<in> set (codeMasks (length sqs)) \<and> maskedIdxs idxs msk = Inr (p, True) \<and>
            maskedBases m idxs msk = Inr bs \<and> score bs = Inr sc}"
      using facts[OF mem] mem x unfolding cand_def by blast
  qed
qed

lemma recScore_A_C: "recScore [0] seqs_A_C [1, 1] = 0"
  by (simp add: recScore_base recScore_step seqs_A_C_def maskSet_def predecessor_def column_def
      numeral_2_eq_2 pairScore_def gap_def mismatch_def match_def)

section \<open>The properties claimed of the program\<close>

text \<open>
  C6: \<open>pairScore\<close> is symmetric in its two arguments, and it is 6 on the same non-gap
  symbol twice, -4 on two different non-gap symbols, -3 when exactly one argument is the
  gap, and 0 on two gaps.
\<close>

theorem pairScore_table:
  "pairScore a b = pairScore b a \<and>
   (a \<noteq> X \<longrightarrow> pairScore a a = 6) \<and>
   (a \<noteq> X \<and> b \<noteq> X \<and> a \<noteq> b \<longrightarrow> pairScore a b = - 4) \<and>
   (a \<noteq> X \<longrightarrow> pairScore a X = - 3 \<and> pairScore X a = - 3) \<and>
   pairScore X X = 0"
  by (simp add: pairScore_def match_def mismatch_def gap_def)

theorem pairScore_table_witness:
  "pairScore A C = pairScore C A \<and> pairScore A A = 6 \<and> pairScore A C = - 4 \<and>
   pairScore A X = - 3 \<and> pairScore X A = - 3 \<and> pairScore X X = 0"
  using pairScore_table[of A C] by simp

text \<open>
  C2: for every \<open>k \<ge> 1\<close>, \<open>generateSubsetMasks\<close> returns, for \<open>k\<close> sequences, a list of
  \<open>2^k - 1\<close> masks; every mask is a vector of length \<open>k\<close> over \<open>{0, 1}\<close> with a bit
  set, the all-zero vector is not among them, and every non-zero vector of \<open>k\<close> bits
  occurs exactly once.
\<close>

theorem generateSubsetMasks_all_nonzero:
  assumes "1 \<le> k"
  shows "\<exists>masks. generateSubsetMasks (int k) = Inr masks \<and>
     length masks = 2 ^ k - 1 \<and>
     (\<forall>m \<in> set masks. length m = k \<and> set m \<subseteq> {0, 1} \<and> 1 \<in> set m) \<and>
     replicate k 0 \<notin> set masks \<and>
     (\<forall>v. length v = k \<and> set v \<subseteq> {0, 1} \<and> v \<noteq> replicate k 0 \<longrightarrow> count_list masks v = 1)"
proof (intro exI conjI)
  show "generateSubsetMasks (int k) = Inr (codeMasks k)" by (rule generateSubsetMasks_eq)
  show "length (codeMasks k) = 2 ^ k - 1" by (rule length_codeMasks)
  show "\<forall>m \<in> set (codeMasks k). length m = k \<and> set m \<subseteq> {0, 1} \<and> 1 \<in> set m"
    using nonzero_has_one by (auto simp: set_codeMasks)
  show "replicate k 0 \<notin> set (codeMasks k)" by (simp add: set_codeMasks)
  show "\<forall>v. length v = k \<and> set v \<subseteq> {0, 1} \<and> v \<noteq> replicate k 0 \<longrightarrow> count_list (codeMasks k) v = 1"
  proof (intro allI impI)
    fix v :: "int list"
    assume "length v = k \<and> set v \<subseteq> {0, 1} \<and> v \<noteq> replicate k 0"
    then have "v \<in> set (codeMasks k)" by (simp add: set_codeMasks)
    with distinct_codeMasks show "count_list (codeMasks k) v = 1"
      by (rule distinct_count_list_one)
  qed
qed

theorem generateSubsetMasks_all_nonzero_witness:
  "\<exists>masks. generateSubsetMasks 2 = Inr masks \<and> length masks = 3 \<and>
     (\<forall>m \<in> set masks. length m = 2 \<and> set m \<subseteq> {0, 1} \<and> 1 \<in> set m) \<and>
     [0, 0] \<notin> set masks \<and>
     (\<forall>v. length v = 2 \<and> set v \<subseteq> {0, 1} \<and> v \<noteq> [0, 0] \<longrightarrow> count_list masks v = 1)"
  using generateSubsetMasks_all_nonzero[of 2] by (simp add: numeral_2_eq_2 numeral_3_eq_3)

text \<open>
  C4: at a coordinate with a component equal to 0 the solver returns 0 at once, whatever
  the other components are: the state is returned as it was, whatever the recursive
  call \<open>rec\<close>, the depth allowed, the masks and the two grids are.
\<close>

theorem base_case_returns_zero:
  assumes "0 \<in> set idxs"
  shows "optimalScore_body rec m idxs = Inr (0, m) \<and> optimalScore d m idxs = Inr (0, m)"
proof -
  have b: "\<exists>i \<in> set idxs. i \<le> 0" using assms by auto
  then have "optimalScore_body r m idxs = Inr (0, m)" for r
    by (simp add: optimalScore_body_def)
  then show ?thesis by (cases d) simp_all
qed

theorem base_case_returns_zero_witness:
  "optimalScore_body (\<lambda>m idxs. Inl Panic)
      \<lparr>seqs = [], table = nd_NewArray [], cached = nd_NewArray [], subsetMasks = [[]]\<rparr> [3, 0, 5]
    = Inr (0, \<lparr>seqs = [], table = nd_NewArray [], cached = nd_NewArray [], subsetMasks = [[]]\<rparr>) \<and>
   optimalScore 0
      \<lparr>seqs = [], table = nd_NewArray [], cached = nd_NewArray [], subsetMasks = [[]]\<rparr> [3, 0, 5]
    = Inr (0, \<lparr>seqs = [], table = nd_NewArray [], cached = nd_NewArray [], subsetMasks = [[]]\<rparr>)"
  using base_case_returns_zero[of "[3, 0, 5]" "\<lambda>m idxs. Inl Panic"
      "\<lparr>seqs = [], table = nd_NewArray [], cached = nd_NewArray [], subsetMasks = [[]]\<rparr>" 0]
  by simp

text \<open>
  C3: \<open>Solve\<close> on the two strings AG and AC returns exactly 1, at every depth that is
  at least the sum of their lengths.
\<close>

theorem Solve_AG_AC: "Solve (4 + d) [ascii ''AG'', ascii ''AC''] = Inr 1"
proof -
  have "Solve (4 + d) [ascii ''AG'', ascii ''AC''] = Solve 4 [ascii ''AG'', ascii ''AC'']"
    by (rule Solve_depth_irrelevant) (simp_all add: ascii_def)
  also have "\<dots> = Inr 1" by code_simp
  finally show ?thesis .
qed

text \<open>
  C7: on a single string \<open>Solve\<close> returns 0, whatever the string; the masks for one
  sequence are the one mask \<open>(1)\<close>, and the score of a column of one symbol is 0.
\<close>

theorem single_sequence_scores_zero:
  assumes "length s \<le> d"
  shows "Solve d [s] = Inr 0 \<and> generateSubsetMasks 1 = Inr [[1]] \<and> score [b] = Inr 0"
proof -
  have "Solve d [s] = Inr 0"
    using Solve_enough[of "[s]" d] assms by (simp add: recScore_single)
  moreover have "generateSubsetMasks 1 = Inr [[1]]"
    using generateSubsetMasks_eq[of 1] by (simp add: codeMasks_def)
  moreover have "score [b] = Inr 0" by (simp add: score_def)
  ultimately show ?thesis by simp
qed

theorem single_sequence_scores_zero_witness:
  "Solve 5 [ascii ''GATTA''] = Inr 0 \<and> generateSubsetMasks 1 = Inr [[1]] \<and> score [G] = Inr 0"
  using single_sequence_scores_zero[of "ascii ''GATTA''" 5 G] by (simp add: ascii_def)

text \<open>
  C5: \<open>Solve\<close> returns a score that is at least 0 on every list of strings, at
  every depth that is at least the sum of their lengths; and from a state whose stored
  scores are all at least 0, whatever else it holds, every call of the solver that
  returns gives a value that is at least 0 and leaves the stored scores so, the running
  \<open>best\<close> starting at 0.
\<close>

theorem Solve_never_negative:
  "(sum_list (map length strs) \<le> d \<longrightarrow> (\<exists>r. Solve d strs = Inr r \<and> 0 \<le> r)) \<and>
   ((\<forall>c. 0 \<le> cells (table m) c) \<and> optimalScore d' m idxs = Inr (v, m') \<longrightarrow>
      0 \<le> v \<and> (\<forall>c. 0 \<le> cells (table m') c))"
proof (intro conjI impI)
  assume "sum_list (map length strs) \<le> d"
  then show "\<exists>r. Solve d strs = Inr r \<and> 0 \<le> r" by (rule Solve_returns_nonneg)
next
  assume a: "(\<forall>c. 0 \<le> cells (table m) c) \<and> optimalScore d' m idxs = Inr (v, m')"
  have "nonneg_result m (optimalScore d' m idxs)" by (rule optimalScore_nonneg)
  with a show "0 \<le> v" "\<forall>c. 0 \<le> cells (table m') c"
    by (simp_all add: nonneg_result_def nonneg_table_def)
qed

theorem Solve_never_negative_witness:
  "(\<exists>r. Solve 2 [ascii ''A'', ascii ''C''] = Inr r \<and> 0 \<le> r) \<and>
   optimalScore 1 (fresh seqs_A_C) [1, 1] = Inr (0, state_A_C) \<and>
   (\<forall>c. 0 \<le> cells (table state_A_C) c)"
  using Solve_never_negative[of "[ascii ''A'', ascii ''C'']" 2 "fresh seqs_A_C" 1 "[1, 1]" 0 state_A_C]
    run_A_C
  by (simp add: ascii_def fresh_def nd_NewArray_def)

text \<open>
  C8: \<open>Solve\<close> returns the same score on a list of strings and on every permutation
  of it, at every depth that is at least the sum of the lengths.
\<close>

theorem Solve_permutation_invariant:
  assumes "mset strs' = mset strs" and "sum_list (map length strs) \<le> d"
  shows "\<exists>r. Solve d strs' = Inr r \<and> Solve d strs = Inr r"
proof -
  have ms: "mset (map convertStringSequence strs') = mset (map convertStringSequence strs)"
    using assms(1) by simp
  have "sum_list (map length strs') = sum_list (map length strs)"
  proof -
    have "sum_mset (mset (map length strs')) = sum_mset (mset (map length strs))"
      using assms(1) by simp
    then show ?thesis by (simp only: sum_mset_sum_list)
  qed
  then have d': "sum_list (map length strs') \<le> d" using assms(2) by simp
  show ?thesis
  proof (intro exI conjI)
    show "Solve d strs = Inr (real_of_int (recScore [0] (map convertStringSequence strs)
           (map (\<lambda>s. int (length (bases s))) (map convertStringSequence strs))) / 2)"
      using assms(2) by (rule Solve_enough)
    then show "Solve d strs' = Inr (real_of_int (recScore [0] (map convertStringSequence strs)
           (map (\<lambda>s. int (length (bases s))) (map convertStringSequence strs))) / 2)"
      by (simp only: Solve_enough[OF d'] recScore_perm[OF ms])
  qed
qed

theorem Solve_permutation_invariant_witness:
  "\<exists>r. Solve 5 [ascii ''AC'', ascii ''G'', ascii ''AG''] = Inr r \<and>
        Solve 5 [ascii ''AG'', ascii ''AC'', ascii ''G''] = Inr r"
  using Solve_permutation_invariant[of "[ascii ''AC'', ascii ''G'', ascii ''AG'']"
      "[ascii ''AG'', ascii ''AC'', ascii ''G'']" 5]
  by (simp add: ascii_def)



text \<open>
  C10: the solver terminates: \<open>Solve\<close> returns on every list of strings when the
  depth allowed is the sum of their lengths, and so does the solver at every coordinate
  when the depth allowed is the sum of the components.  Every recursive call is made on
  the coordinate minus a mask of the run, which is a coordinate again, with a smaller
  sum, one component exactly one less and no component greater.
\<close>

theorem solver_terminates:
  "(sum_list (map length strs) \<le> d \<longrightarrow> (\<exists>r. Solve d strs = Inr r)) \<and>
   (solver_state sqs m \<and> coordinate sqs idxs \<and> sum_list idxs \<le> int d \<longrightarrow>
      (\<exists>v m'. optimalScore d m idxs = Inr (v, m'))) \<and>
   (solver_state sqs m \<and> coordinate sqs idxs \<and> (\<forall>i \<in> set idxs. 0 < i) \<and>
    msk \<in> set (subsetMasks m) \<longrightarrow>
      maskedIdxs idxs msk = Inr (predecessor idxs msk, True) \<and>
      coordinate sqs (predecessor idxs msk) \<and>
      sum_list (predecessor idxs msk) < sum_list idxs \<and>
      (\<exists>n < length idxs. predecessor idxs msk ! n = idxs ! n - 1) \<and>
      (\<forall>n < length idxs. predecessor idxs msk ! n \<le> idxs ! n))"
proof (intro conjI impI)
  assume "sum_list (map length strs) \<le> d"
  then show "\<exists>r. Solve d strs = Inr r" using Solve_enough by blast
next
  assume "solver_state sqs m \<and> coordinate sqs idxs \<and> sum_list idxs \<le> int d"
  then show "\<exists>v m'. optimalScore d m idxs = Inr (v, m')"
    using optimalScore_enough[of sqs m idxs d] by metis
next
  assume a: "solver_state sqs m \<and> coordinate sqs idxs \<and> (\<forall>i \<in> set idxs. 0 < i) \<and>
    msk \<in> set (subsetMasks m)"
  then have len: "length idxs = length sqs" using coordinate_length by blast
  from a have mem: "msk \<in> set (codeMasks (length idxs))"
    using solver_state_masks[of sqs m] len by simp
  then have m: "length msk = length idxs" "set msk \<subseteq> {0, 1}"
    by (simp_all add: set_codeMasks)
  show "maskedIdxs idxs msk = Inr (predecessor idxs msk, True)"
    using m a by (intro maskedIdxs_ok) simp_all
  show "coordinate sqs (predecessor idxs msk)"
    using a m by (intro coordinate_predecessor) simp_all
  show "sum_list (predecessor idxs msk) < sum_list idxs"
    "\<exists>n < length idxs. predecessor idxs msk ! n = idxs ! n - 1"
    "\<forall>n < length idxs. predecessor idxs msk ! n \<le> idxs ! n"
    using predecessor_step[OF mem] by blast+
qed

theorem solver_terminates_witness:
  "(\<exists>r. Solve 2 [ascii ''A'', ascii ''C''] = Inr r) \<and>
   (\<exists>v m'. optimalScore 2 (fresh seqs_A_C) [1, 1] = Inr (v, m')) \<and>
   maskedIdxs [1, 1] [1, 0] = Inr ([0, 1], True) \<and>
   coordinate seqs_A_C [0, 1] \<and> sum_list [0, 1] < sum_list [1, 1 :: int]"
proof -
  have "[1, 0] \<in> set (subsetMasks (fresh seqs_A_C))"
    by (simp add: fresh_def seqs_A_C_def codeMasks_2)
  then show ?thesis
    using solver_terminates[of "[ascii ''A'', ascii ''C'']" 2 seqs_A_C "fresh seqs_A_C" "[1, 1]" "[1, 0]"]
      solver_state_fresh[of seqs_A_C] coordinate_A_C
    by (simp add: predecessor_def ascii_def)
qed

text \<open>
  C1, as it is stated, fails: the value at a coordinate is not the largest candidate
  of the masks.  For the sequences A and C, the three candidates at the coordinate
  \<open>(1, 1)\<close> are -4, -3 and -3, so the recurrence as stated gives -3; the solver returns
  0, and \<open>Solve\<close> returns 0.
\<close>

theorem stated_recurrence_counterexample:
  "newMultiDP seqs_A_C = Inr (fresh seqs_A_C) \<and>
   optimalScore 1 (fresh seqs_A_C) [1, 1] = Inr (0, state_A_C) \<and>
   recScore [] seqs_A_C [1, 1] = - 3 \<and>
   Solve 2 [ascii ''A'', ascii ''C''] = Inr 0"
proof -
  have "recScore [] seqs_A_C [1, 1] = - 3"
    by (simp add: recScore_base recScore_step seqs_A_C_def maskSet_def predecessor_def column_def
      numeral_2_eq_2 pairScore_def gap_def mismatch_def match_def)
  moreover have "Solve 2 [ascii ''A'', ascii ''C''] = Inr 0" by code_simp
  ultimately show ?thesis using newMultiDP_eq run_A_C by simp
qed

text \<open>
  C1, amended: at every coordinate of a run the solver returns the value of the
  recurrence that takes 0 as one more candidate: 0 at a coordinate with a component 0,
  and otherwise the largest of 0 and, over the masks of the run whose predecessor has
  no negative component, the value at the predecessor plus the score of the column the
  mask selects.  No value is negative, and \<open>Solve\<close> never returns a negative score.
\<close>

theorem optimalScore_floored_recurrence:
  assumes "solver_state sqs m" and "coordinate sqs idxs" and "sum_list idxs \<le> int d"
  shows "(\<exists>m'. optimalScore d m idxs = Inr (recScore [0] sqs idxs, m') \<and> solver_state sqs m') \<and>
    0 \<le> recScore [0] sqs idxs \<and>
    ((\<exists>i \<in> set idxs. i \<le> 0) \<longrightarrow> recScore [0] sqs idxs = 0) \<and>
    ((\<forall>i \<in> set idxs. 0 < i) \<longrightarrow>
       recScore [0] sqs idxs =
         Max (insert 0 {recScore [0] sqs p + sc | msk p bs sc.
            msk \<in> set (subsetMasks m) \<and> maskedIdxs idxs msk = Inr (p, True) \<and>
            maskedBases m idxs msk = Inr bs \<and> score bs = Inr sc})) \<and>
    (sum_list (map length strs) \<le> d' \<longrightarrow> (\<exists>r. Solve d' strs = Inr r \<and> 0 \<le> r))"
proof (intro conjI impI)
  show "\<exists>m'. optimalScore d m idxs = Inr (recScore [0] sqs idxs, m') \<and> solver_state sqs m'"
    using optimalScore_enough[OF assms] by metis
  show "0 \<le> recScore [0] sqs idxs" by (rule recScore_nonneg)
next
  assume "\<exists>i \<in> set idxs. i \<le> 0"
  then show "recScore [0] sqs idxs = 0" by (rule recScore_base)
next
  assume pos: "\<forall>i \<in> set idxs. 0 < i"
  show "recScore [0] sqs idxs =
         Max (insert 0 {recScore [0] sqs p + sc | msk p bs sc.
            msk \<in> set (subsetMasks m) \<and> maskedIdxs idxs msk = Inr (p, True) \<and>
            maskedBases m idxs msk = Inr bs \<and> score bs = Inr sc})"
    unfolding solver_candidates[OF assms(1,2) pos] recScore_codeMasks[OF assms(2) pos]
    by simp
next
  assume "sum_list (map length strs) \<le> d'"
  then show "\<exists>r. Solve d' strs = Inr r \<and> 0 \<le> r" by (rule Solve_returns_nonneg)
qed

theorem optimalScore_floored_recurrence_witness:
  "(\<exists>m'. optimalScore 2 (fresh seqs_A_C) [1, 1] = Inr (0, m') \<and> solver_state seqs_A_C m') \<and>
   (0::int) = Max (insert 0 {recScore [0] seqs_A_C p + sc | msk p bs sc.
            msk \<in> set (subsetMasks (fresh seqs_A_C)) \<and> maskedIdxs [1, 1] msk = Inr (p, True) \<and>
            maskedBases (fresh seqs_A_C) [1, 1] msk = Inr bs \<and> score bs = Inr sc}) \<and>
   (\<exists>r. Solve 2 [ascii ''A'', ascii ''C''] = Inr r \<and> 0 \<le> r)"
  using optimalScore_floored_recurrence[of seqs_A_C "fresh seqs_A_C" "[1, 1]" 2
      "[ascii ''A'', ascii ''C'']" 2] solver_state_fresh[of seqs_A_C] coordinate_A_C
  by (simp add: recScore_A_C ascii_def)

end
